theory Spec2Isabelle
  imports Main "HOL-Library.AList" "HOL-Library.Char_ord" "HOL-Library.List_Lexorder"
begin

section \<open>JavaScript values used by \<^verbatim>\<open>lib/entitiescreator.js\<close>\<close>

text \<open>
  Strings are \<^typ>\<open>string\<close>. A property that may be \<^verbatim>\<open>undefined\<close> (or \<^verbatim>\<open>null\<close>) is a
  \<^typ>\<open>string option\<close>. JavaScript's truthiness of such a property: \<^verbatim>\<open>undefined\<close>,
  \<^verbatim>\<open>null\<close> and the empty string are falsy, every other string is truthy.
\<close>

fun truthy :: "string option \<Rightarrow> bool" where
  "truthy None = False"
| "truthy (Some s) = (s \<noteq> [])"

text \<open>\<^verbatim>\<open>a || b\<close> on two strings of which the second is defined.\<close>

definition orElse :: "string option \<Rightarrow> string \<Rightarrow> string" where
  "orElse a b = (case a of None \<Rightarrow> b | Some s \<Rightarrow> if s = [] then b else s)"

text \<open>\<^verbatim>\<open>'' + n\<close> for a non-negative integer \<open>n\<close>: its decimal digits.\<close>

definition digit :: "nat \<Rightarrow> char" where
  "digit d = ''0123456789'' ! d"

function numberToString :: "nat \<Rightarrow> string" where
  "numberToString n =
     (if n < 10 then [digit n] else numberToString (n div 10) @ [digit (n mod 10)])"
  by pat_completeness auto
termination
  by (relation "measure id") auto

declare numberToString.simps [simp del]

text \<open>
  \<^verbatim>\<open>String.prototype.toLowerCase\<close>, on the letters \<open>A\<close> to \<open>Z\<close>. The source compares the
  result with \<^verbatim>\<open>'user'\<close> only, and no character outside \<open>A\<close> to \<open>Z\<close> has one of
  \<open>u\<close>, \<open>s\<close>, \<open>e\<close>, \<open>r\<close> as its lower case, so the other characters are left as they are.
\<close>

definition lowerChar :: "char \<Rightarrow> char" where
  "lowerChar c =
     (case map_of (zip ''ABCDEFGHIJKLMNOPQRSTUVWXYZ'' ''abcdefghijklmnopqrstuvwxyz'') c of
        Some l \<Rightarrow> l
      | None \<Rightarrow> c)"

definition toLowerCase :: "string \<Rightarrow> string" where
  "toLowerCase s = map lowerChar s"

text \<open>\<^verbatim>\<open>s.replace(c, r)\<close> with a one-character pattern: only the first occurrence.\<close>

fun replaceFirst :: "char \<Rightarrow> string \<Rightarrow> string \<Rightarrow> string" where
  "replaceFirst c r [] = []"
| "replaceFirst c r (x # xs) = (if x = c then r @ xs else x # replaceFirst c r xs)"

text \<open>\<^verbatim>\<open>s.split(c)\<close> with a one-character separator: never the empty list.\<close>

fun split :: "char \<Rightarrow> string \<Rightarrow> string list" where
  "split c [] = [[]]"
| "split c (x # xs) =
     (if x = c then [] # split c xs
      else (case split c xs of [] \<Rightarrow> [[x]] | w # ws \<Rightarrow> (x # w) # ws))"

section \<open>The changelog date\<close>

text \<open>
  \<^verbatim>\<open>now_utc\<close> of \<^verbatim>\<open>dateFormatForLiquibase\<close>: the local-time \<^verbatim>\<open>Date\<close> built from the UTC
  components of \<^verbatim>\<open>new Date()\<close>, given by what its getters return. \<open>getMonth\<close> is
  0-based as in JavaScript. The getters return the UTC components themselves unless the
  local time zone skips that wall-clock time or the year is below 100; the model starts
  from what they return.
\<close>

record now_utc =
  getFullYear :: nat
  getMonth :: nat
  getDate :: nat
  getHours :: nat
  getMinutes :: nat
  getSeconds :: nat

text \<open>The padding of month, day, hour and second: \<^verbatim>\<open>if (x.length === 1) x = `0${x}`\<close>.\<close>

definition pad :: "string \<Rightarrow> string" where
  "pad s = (if length s = 1 then CHR ''0'' # s else s)"

text \<open>
  The padding of the minute, as the source has it: the template \<^verbatim>\<open>`0{minute}`\<close> has no
  \<^verbatim>\<open>$\<close>, so it is the nine characters \<^verbatim>\<open>0{minute}\<close>.
\<close>

definition padMinute :: "string \<Rightarrow> string" where
  "padMinute s = (if length s = 1 then ''0{minute}'' else s)"

definition dateFormatForLiquibase :: "now_utc \<Rightarrow> nat \<Rightarrow> string" where
  "dateFormatForLiquibase now increment =
     (let year = numberToString (getFullYear now);
          month = pad (numberToString (getMonth now + 1));
          day = pad (numberToString (getDate now));
          hour = pad (numberToString (getHours now));
          minute = padMinute (numberToString (getMinutes now));
          second = pad (numberToString ((getSeconds now + increment) mod 60))
      in year @ month @ day @ hour @ minute @ second)"

section \<open>The parsed model\<close>

text \<open>
  A JavaScript object used as a dictionary is an association list in the order of
  \<^verbatim>\<open>Object.keys\<close>; its keys are distinct. \<^verbatim>\<open>parsedData.getClass(id)\<close> and its siblings
  are the lookups of an identifier in these dictionaries.
\<close>

datatype cardinality = ONE_TO_ONE | ONE_TO_MANY | MANY_TO_ONE | MANY_TO_MANY

record association =
  assoc_from :: string
  assoc_to :: string
  assoc_type :: cardinality
  injectedFieldInFrom :: "string option"
  injectedFieldInTo :: "string option"

record class_model =
  class_name :: string
  class_fields :: "string list"
  class_dto :: "string option"
  class_pagination :: "string option"
  class_service :: "string option"
  class_microserviceName :: "string option"
  class_searchEngine :: "string option"
  class_comment :: "string option"
  class_tableName :: "string option"

record field_model =
  field_name :: string
  field_type :: string
  field_comment :: "string option"
  field_validations :: "string list"

record enum_model =
  enum_name :: string
  enum_values :: "string list"

record validation_model =
  validation_name :: string
  validation_value :: "string option"

record parsedData =
  classes :: "(string \<times> class_model) list"
  fieldModels :: "(string \<times> field_model) list"
  types :: "(string \<times> string) list"
  enums :: "(string \<times> enum_model) list"
  validations :: "(string \<times> validation_model) list"
  associations :: "(string \<times> association) list"

definition getClass :: "parsedData \<Rightarrow> string \<Rightarrow> class_model option" where
  "getClass pd classId = map_of (classes pd) classId"

definition getField :: "parsedData \<Rightarrow> string \<Rightarrow> field_model option" where
  "getField pd fieldId = map_of (fieldModels pd) fieldId"

definition getType :: "parsedData \<Rightarrow> string \<Rightarrow> string option" where
  "getType pd typeId = map_of (types pd) typeId"

definition getEnum :: "parsedData \<Rightarrow> string \<Rightarrow> enum_model option" where
  "getEnum pd enumId = map_of (enums pd) enumId"

definition getValidation :: "parsedData \<Rightarrow> string \<Rightarrow> validation_model option" where
  "getValidation pd validationId = map_of (validations pd) validationId"

definition getAssociation :: "parsedData \<Rightarrow> string \<Rightarrow> association option" where
  "getAssociation pd associationId = map_of (associations pd) associationId"

section \<open>The entities\<close>

record relationship =
  relationshipId :: nat
  relationshipType :: cardinality
  relationshipName :: "string option"
  otherEntityName :: "string option"
  otherEntityField :: "string option"
  ownerSide :: "bool option"
  otherEntityRelationshipName :: "string option"

text \<open>
  \<^verbatim>\<open>field.fieldValidateRules\<close>: the array of rule names, or, when a validation's capitalised
  name is empty, the validation's value that \<^verbatim>\<open>field['fieldValidateRules' + '']\<close> stored over
  the array.
\<close>

datatype rules = Rules "string list" | Overwritten "string option"

record fieldData =
  fieldId :: nat
  fieldName :: string
  field_javadoc :: "string option"
  fieldType :: "string option"
  fieldValues :: "string option"
  fieldTypeBlobContent :: "string option"
  fieldValidateRules :: "rules option"
  fieldValidateRulesOf :: "(string \<times> string option) list"

record entity =
  relationships :: "relationship list"
  entity_fields :: "fieldData list"
  changelogDate :: "string option"
  dto :: "string option"
  pagination :: "string option"
  service :: "string option"
  microserviceName :: "string option"
  searchEngine :: "string option"
  javadoc :: "string option"
  entityTableName :: string

section \<open>What the module takes from outside\<close>

text \<open>
  A value read from \<^verbatim>\<open>onDiskEntities\<close>, such as the value of \<^verbatim>\<open>JSON.parse\<close> on a snapshot
  file, as far as the module reads it: a falsy value (\<^verbatim>\<open>undefined\<close> among them), or a truthy
  one with its \<^verbatim>\<open>changelogDate\<close> property (\<open>None\<close> when it has none).
\<close>

datatype json = Falsy | Truthy "string option"

datatype databaseTypes = DatabaseTypes string

datatype error =
  NullPointer | NoSQLModeling | InvalidAssociation string string | TypeError | SyntaxError

text \<open>
  The collaborators that are not in \<^verbatim>\<open>lib/entitiescreator.js\<close> are parameters: the lodash
  functions, \<^verbatim>\<open>formatComment\<close>, \<^verbatim>\<open>isNoSQL\<close>, \<^verbatim>\<open>checkValidityOfAssociation\<close> (\<open>False\<close> when it
  throws), the file system (\<^verbatim>\<open>fs.existsSync\<close> and \<^verbatim>\<open>fs.readFileSync\<close>: the text of a file,
  \<open>None\<close> when there is none), \<^verbatim>\<open>JSON.parse\<close> (\<open>None\<close> when it throws) and the clock:
  \<open>clock env i\<close> is \<^verbatim>\<open>now_utc\<close> as \<^verbatim>\<open>dateFormatForLiquibase(i)\<close> reads it, one reading for
  each call.
\<close>

record env =
  camelCase :: "string \<Rightarrow> string"
  lowerFirst :: "string \<Rightarrow> string"
  snakeCase :: "string option \<Rightarrow> string"
  capitalize :: "string \<Rightarrow> string"
  formatComment :: "string option \<Rightarrow> string option"
  isNoSQL :: "databaseTypes \<Rightarrow> bool"
  checkValidityOfAssociation :: "association \<Rightarrow> string \<Rightarrow> string \<Rightarrow> bool"
  files :: "string \<Rightarrow> string option"
  JSON_parse :: "string \<Rightarrow> json option"
  clock :: "nat \<Rightarrow> now_utc"

section \<open>The module's variables\<close>

record globals =
  entitiesToSuppress :: "string list"
  listDTO :: "string list"
  listPagination :: "(string \<times> string) list"
  listService :: "(string \<times> string) list"
  microserviceNames :: "(string \<times> string) list"
  searchEngines :: "string list"
  databaseTypesOf :: databaseTypes
  parsedDataOf :: parsedData
  entities :: "(string \<times> entity) list"
  onDiskEntities :: "(string \<times> json) list"

text \<open>The argument of \<^verbatim>\<open>createEntities\<close>: every key may be missing.\<close>

record args =
  arg_parsedData :: "parsedData option"
  arg_databaseTypes :: "databaseTypes option"
  arg_listDTO :: "string list option"
  arg_listPagination :: "(string \<times> string) list option"
  arg_listService :: "(string \<times> string) list option"
  arg_microserviceNames :: "(string \<times> string) list option"
  arg_searchEngines :: "string list option"

text \<open>A step of the pipeline: the variables after it, or the exception with the variables
  as they are when it is thrown.\<close>

type_synonym result = "(error \<times> globals) + globals"

section \<open>Initialisation\<close>

text \<open>
  Modelled from the spec: \<^verbatim>\<open>merge(defaults(), args)\<close> of \<^verbatim>\<open>lib/utils/object_utils\<close>, which
  is not among the sources. The override collections default to empty when absent; the
  parsed data and the database types stay as the caller gave them.
\<close>

definition merge :: "args \<Rightarrow> args" where
  "merge a =
     a\<lparr>arg_listDTO := Some (case arg_listDTO a of None \<Rightarrow> [] | Some l \<Rightarrow> l),
       arg_listPagination := Some (case arg_listPagination a of None \<Rightarrow> [] | Some l \<Rightarrow> l),
       arg_listService := Some (case arg_listService a of None \<Rightarrow> [] | Some l \<Rightarrow> l),
       arg_microserviceNames :=
         Some (case arg_microserviceNames a of None \<Rightarrow> [] | Some l \<Rightarrow> l),
       arg_searchEngines := Some (case arg_searchEngines a of None \<Rightarrow> [] | Some l \<Rightarrow> l)\<rparr>"

text \<open>\<^verbatim>\<open>init(merged)\<close>, called once both mandatory keys are known to be present.\<close>

definition init :: "args \<Rightarrow> parsedData \<Rightarrow> databaseTypes \<Rightarrow> globals" where
  "init merged pd dt =
     \<lparr>entitiesToSuppress = [],
      listDTO = (case arg_listDTO merged of None \<Rightarrow> [] | Some l \<Rightarrow> l),
      listPagination = (case arg_listPagination merged of None \<Rightarrow> [] | Some l \<Rightarrow> l),
      listService = (case arg_listService merged of None \<Rightarrow> [] | Some l \<Rightarrow> l),
      microserviceNames = (case arg_microserviceNames merged of None \<Rightarrow> [] | Some l \<Rightarrow> l),
      searchEngines = (case arg_searchEngines merged of None \<Rightarrow> [] | Some l \<Rightarrow> l),
      databaseTypesOf = dt,
      parsedDataOf = pd,
      entities = [],
      onDiskEntities = []\<rparr>"

definition checkNoSQLModeling :: "env \<Rightarrow> globals \<Rightarrow> result" where
  "checkNoSQLModeling env g =
     (if isNoSQL env (databaseTypesOf g)
         \<and> length (map fst (associations (parsedDataOf g))) \<noteq> 0
      then Inl (NoSQLModeling, g) else Inr g)"

fun readJSONFiles_loop :: "env \<Rightarrow> string list \<Rightarrow> globals \<Rightarrow> result" where
  "readJSONFiles_loop env [] g = Inr g"
| "readJSONFiles_loop env (classId # rest) g =
     (case getClass (parsedDataOf g) classId of
        None \<Rightarrow> Inl (TypeError, g)
      | Some c \<Rightarrow>
          (let file = ''.jhipster/'' @ class_name c @ ''.json'' in
           case files env file of
             None \<Rightarrow> readJSONFiles_loop env rest g
           | Some text \<Rightarrow>
               (case JSON_parse env text of
                  None \<Rightarrow> Inl (SyntaxError, g)
                | Some v \<Rightarrow>
                    readJSONFiles_loop env rest
                      (g\<lparr>onDiskEntities := AList.update classId v (onDiskEntities g)\<rparr>))))"

definition readJSONFiles :: "env \<Rightarrow> globals \<Rightarrow> result" where
  "readJSONFiles env g = readJSONFiles_loop env (map fst (classes (parsedDataOf g))) g"

text \<open>
  \<^verbatim>\<open>onDiskEntities\<close> is created as \<^verbatim>\<open>{}\<close> and is read under every class identifier, also
  under those that \<^verbatim>\<open>readJSONFiles\<close> never assigned. Such a read finds what the object
  inherits from \<^verbatim>\<open>Object.prototype\<close>: one of its methods, or the prototype itself under
  \<^verbatim>\<open>__proto__\<close>. All of them are truthy and have no \<^verbatim>\<open>changelogDate\<close>. The list below holds
  the property names of \<^verbatim>\<open>Object.prototype\<close> in Node.js. The prototype is taken as fixed:
  an assignment under the identifier \<^verbatim>\<open>__proto__\<close>, which would replace it, is kept as an
  entry like the others.
\<close>

definition objectPrototype :: "string list" where
  "objectPrototype =
     [''constructor'', ''__defineGetter__'', ''__defineSetter__'', ''hasOwnProperty'',
      ''__lookupGetter__'', ''__lookupSetter__'', ''isPrototypeOf'', ''propertyIsEnumerable'',
      ''toString'', ''valueOf'', ''__proto__'', ''toLocaleString'']"

text \<open>
  \<^verbatim>\<open>onDiskEntities[classId]\<close>: the property assigned under the identifier, else the
  inherited one, else \<^verbatim>\<open>undefined\<close>.
\<close>

definition onDiskEntity :: "globals \<Rightarrow> string \<Rightarrow> json" where
  "onDiskEntity g classId =
     (case map_of (onDiskEntities g) classId of
        Some v \<Rightarrow> v
      | None \<Rightarrow> if classId \<in> set objectPrototype then Truthy None else Falsy)"

definition getChangelogDate :: "env \<Rightarrow> globals \<Rightarrow> string \<Rightarrow> nat \<Rightarrow> string option" where
  "getChangelogDate env g classId increment =
     (case onDiskEntity g classId of
        Truthy d \<Rightarrow> d
      | Falsy \<Rightarrow> Some (dateFormatForLiquibase (clock env increment) increment))"

definition setOptions :: "globals \<Rightarrow> entity \<Rightarrow> string \<Rightarrow> entity" where
  "setOptions g entity entityName =
     (let e1 = (if entityName \<in> set (listDTO g) then entity\<lparr>dto := Some ''mapstruct''\<rparr>
                else entity);
          e2 = (case map_of (listPagination g) entityName of
                  Some v \<Rightarrow> e1\<lparr>pagination := Some v\<rparr> | None \<Rightarrow> e1);
          e3 = (case map_of (listService g) entityName of
                  Some v \<Rightarrow> e2\<lparr>service := Some v\<rparr> | None \<Rightarrow> e2);
          e4 = (case map_of (microserviceNames g) entityName of
                  Some v \<Rightarrow> e3\<lparr>microserviceName := Some v\<rparr> | None \<Rightarrow> e3)
      in if entityName \<in> set (searchEngines g)
         then e4\<lparr>searchEngine := Some ''elasticsearch''\<rparr> else e4)"

fun initializeEntities_loop :: "env \<Rightarrow> string list \<Rightarrow> nat \<Rightarrow> globals \<Rightarrow> result" where
  "initializeEntities_loop env [] index g = Inr g"
| "initializeEntities_loop env (classId # rest) index g =
     (case getClass (parsedDataOf g) classId of
        None \<Rightarrow> Inl (TypeError, g)
      | Some c \<Rightarrow>
          (let initializedEntity =
                 \<lparr>relationships = [],
                  entity_fields = [],
                  changelogDate = getChangelogDate env g classId index,
                  dto = class_dto c,
                  pagination = class_pagination c,
                  service = class_service c,
                  microserviceName = class_microserviceName c,
                  searchEngine = class_searchEngine c,
                  javadoc = formatComment env (class_comment c),
                  entityTableName = snakeCase env (class_tableName c)\<rparr>;
               initializedEntity' = setOptions g initializedEntity (class_name c)
           in initializeEntities_loop env rest (index + 1)
                (g\<lparr>entities := AList.update classId initializedEntity' (entities g)\<rparr>)))"

definition initializeEntities :: "env \<Rightarrow> globals \<Rightarrow> result" where
  "initializeEntities env g =
     initializeEntities_loop env (map fst (classes (parsedDataOf g))) 0 g"

section \<open>Fields\<close>

fun join :: "string list \<Rightarrow> string" where
  "join [] = []"
| "join [v] = v"
| "join (v # w # vs) = v @ '','' @ join (w # vs)"

text \<open>\<^verbatim>\<open>field['fieldValidateRules' + suffix] = value\<close>.\<close>

definition setRuleProperty :: "string \<Rightarrow> string option \<Rightarrow> fieldData \<Rightarrow> fieldData" where
  "setRuleProperty suffix v field =
     (if suffix = [] then field\<lparr>fieldValidateRules := Some (Overwritten v)\<rparr>
      else field\<lparr>fieldValidateRulesOf :=
             AList.update (''fieldValidateRules'' @ suffix) v (fieldValidateRulesOf field)\<rparr>)"

fun setValidationsOfField_loop ::
  "env \<Rightarrow> parsedData \<Rightarrow> string list \<Rightarrow> fieldData \<Rightarrow> fieldData option" where
  "setValidationsOfField_loop env pd [] field = Some field"
| "setValidationsOfField_loop env pd (validationId # rest) field =
     (case getValidation pd validationId of
        None \<Rightarrow> None
      | Some validation \<Rightarrow>
          (case fieldValidateRules field of
             Some (Rules rs) \<Rightarrow>
               (let field1 =
                      field\<lparr>fieldValidateRules := Some (Rules (rs @ [validation_name validation]))\<rparr>;
                    field2 =
                      (if validation_name validation \<noteq> ''required''
                       then setRuleProperty (capitalize env (validation_name validation))
                              (validation_value validation) field1
                       else field1)
                in setValidationsOfField_loop env pd rest field2)
           | _ \<Rightarrow> None))"

text \<open>\<open>None\<close> is the \<^verbatim>\<open>TypeError\<close> of reading a property of \<^verbatim>\<open>undefined\<close>.\<close>

definition setValidationsOfField ::
  "env \<Rightarrow> parsedData \<Rightarrow> fieldData \<Rightarrow> field_model \<Rightarrow> fieldData option" where
  "setValidationsOfField env pd field fm =
     (if length (field_validations fm) = 0 then Some field
      else setValidationsOfField_loop env pd (field_validations fm)
             (field\<lparr>fieldValidateRules := Some (Rules [])\<rparr>))"

definition rewriteBlob :: "fieldData \<Rightarrow> fieldData" where
  "rewriteBlob fd =
     (if fieldType fd = Some ''ImageBlob''
      then fd\<lparr>fieldType := Some ''byte[]'', fieldTypeBlobContent := Some ''image''\<rparr>
      else if fieldType fd = Some ''Blob'' \<or> fieldType fd = Some ''AnyBlob''
      then fd\<lparr>fieldType := Some ''byte[]'', fieldTypeBlobContent := Some ''any''\<rparr>
      else fd)"

fun setFieldsOfEntity_loop :: "env \<Rightarrow> string \<Rightarrow> string list \<Rightarrow> globals \<Rightarrow> result" where
  "setFieldsOfEntity_loop env classId [] g = Inr g"
| "setFieldsOfEntity_loop env classId (fid # rest) g =
     (case map_of (entities g) classId of
        None \<Rightarrow> Inl (TypeError, g)
      | Some entity \<Rightarrow>
          (case getField (parsedDataOf g) fid of
             None \<Rightarrow> Inl (TypeError, g)
           | Some fm \<Rightarrow>
               (let fieldData0 =
                      \<lparr>fieldId = length (entity_fields entity) + 1,
                       fieldName = camelCase env (field_name fm),
                       field_javadoc = formatComment env (field_comment fm),
                       fieldType = None,
                       fieldValues = None,
                       fieldTypeBlobContent = None,
                       fieldValidateRules = None,
                       fieldValidateRulesOf = []\<rparr>;
                    fieldData1 =
                      (case getType (parsedDataOf g) (field_type fm) of
                         Some typeName \<Rightarrow> fieldData0\<lparr>fieldType := Some typeName\<rparr>
                       | None \<Rightarrow>
                           (case getEnum (parsedDataOf g) (field_type fm) of
                              Some en \<Rightarrow>
                                fieldData0\<lparr>fieldType := Some (enum_name en),
                                           fieldValues := Some (join (enum_values en))\<rparr>
                            | None \<Rightarrow> fieldData0))
                in case setValidationsOfField env (parsedDataOf g) (rewriteBlob fieldData1) fm of
                     None \<Rightarrow> Inl (TypeError, g)
                   | Some fieldData2 \<Rightarrow>
                       setFieldsOfEntity_loop env classId rest
                         (g\<lparr>entities :=
                              AList.map_entry classId
                                (\<lambda>e. e\<lparr>entity_fields := entity_fields e @ [fieldData2]\<rparr>)
                                (entities g)\<rparr>))))"

definition setFieldsOfEntity :: "env \<Rightarrow> string \<Rightarrow> globals \<Rightarrow> result" where
  "setFieldsOfEntity env classId g =
     (case map_of (classes (parsedDataOf g)) classId of
        None \<Rightarrow> Inl (TypeError, g)
      | Some c \<Rightarrow> setFieldsOfEntity_loop env classId (class_fields c) g)"

section \<open>Relationships\<close>

text \<open>\<^verbatim>\<open>xs.forEach(f)\<close> where \<open>f\<close> changes the module's variables and may throw.\<close>

fun forEach :: "('a \<Rightarrow> globals \<Rightarrow> result) \<Rightarrow> 'a list \<Rightarrow> globals \<Rightarrow> result" where
  "forEach f [] g = Inr g"
| "forEach f (x # xs) g = (case f x g of Inl e \<Rightarrow> Inl e | Inr g' \<Rightarrow> forEach f xs g')"

text \<open>
  \<^verbatim>\<open>getRelatedAssociations\<close>: the pair is \<^verbatim>\<open>relationships.from\<close> and \<^verbatim>\<open>relationships.to\<close>;
  \<open>None\<close> is the \<^verbatim>\<open>TypeError\<close> of an identifier that is not a key of \<open>assocs\<close>.
\<close>

fun getRelatedAssociations ::
  "string \<Rightarrow> string list \<Rightarrow> (string \<times> association) list \<Rightarrow> string list \<times> string list
     \<Rightarrow> (string list \<times> string list) option" where
  "getRelatedAssociations classId [] assocs rel = Some rel"
| "getRelatedAssociations classId (associationId # rest) assocs rel =
     (case map_of assocs associationId of
        None \<Rightarrow> None
      | Some association \<Rightarrow>
          (let rel1 = (if assoc_from association = classId
                       then (fst rel @ [associationId], snd rel) else rel);
               rel2 = (if assoc_to association = classId \<and> truthy (injectedFieldInTo association)
                       then (fst rel1, snd rel1 @ [associationId]) else rel1)
           in getRelatedAssociations classId rest assocs rel2))"

record splitField =
  split_otherEntityField :: string
  split_relationshipName :: string

definition extractField :: "string option \<Rightarrow> splitField" where
  "extractField field =
     (case field of
        None \<Rightarrow> \<lparr>split_otherEntityField = ''id'', split_relationshipName = []\<rparr>
      | Some f \<Rightarrow>
          if f = [] then \<lparr>split_otherEntityField = ''id'', split_relationshipName = []\<rparr>
          else (let chunks = split CHR ''/''
                               (replaceFirst CHR '')'' [] (replaceFirst CHR ''('' ''/'' f))
                in \<lparr>split_otherEntityField = (if length chunks > 1 then chunks ! 1 else ''id''),
                    split_relationshipName = chunks ! 0\<rparr>))"

text \<open>The object literal \<^verbatim>\<open>{relationshipId: n, relationshipType: t}\<close>.\<close>

definition newRelationship :: "nat \<Rightarrow> cardinality \<Rightarrow> relationship" where
  "newRelationship n t =
     \<lparr>relationshipId = n, relationshipType = t, relationshipName = None,
      otherEntityName = None, otherEntityField = None, ownerSide = None,
      otherEntityRelationshipName = None\<rparr>"

text \<open>
  The record \<^verbatim>\<open>relationship\<close> that the callback of \<^verbatim>\<open>associations.from.forEach\<close> builds
  (lines 304 to 345), from the association, the names of its two classes and the
  identifier \<open>n\<close>.
\<close>

definition fromRelationship ::
  "env \<Rightarrow> association \<Rightarrow> string \<Rightarrow> string \<Rightarrow> nat \<Rightarrow> relationship" where
  "fromRelationship env association fromName toName n =
     (let relationship = newRelationship n (assoc_type association) in
      if assoc_type association = ONE_TO_ONE then
        (let splitField = extractField (injectedFieldInFrom association) in
         relationship
           \<lparr>relationshipName := Some (camelCase env (split_relationshipName splitField)),
            otherEntityName := Some (lowerFirst env (camelCase env toName)),
            otherEntityField := Some (lowerFirst env (split_otherEntityField splitField)),
            ownerSide := Some True,
            otherEntityRelationshipName :=
              Some (lowerFirst env (orElse (injectedFieldInTo association) fromName))\<rparr>)
      else if assoc_type association = ONE_TO_MANY then
        (let splitField = extractField (injectedFieldInFrom association);
             otherSplitField = extractField (injectedFieldInTo association);
             relationship1 = relationship
               \<lparr>relationshipName :=
                  Some (lowerFirst env (camelCase env
                    (orElse (Some (split_relationshipName splitField)) toName))),
                otherEntityName := Some (lowerFirst env (camelCase env toName)),
                otherEntityRelationshipName :=
                  Some (lowerFirst env (split_relationshipName otherSplitField))\<rparr>
         in if \<not> truthy (injectedFieldInTo association)
            then relationship1\<lparr>otherEntityRelationshipName := Some (lowerFirst env fromName)\<rparr>
            else relationship1)
      else if assoc_type association = MANY_TO_ONE \<and> truthy (injectedFieldInFrom association) then
        (let splitField = extractField (injectedFieldInFrom association) in
         relationship
           \<lparr>relationshipName := Some (camelCase env (split_relationshipName splitField)),
            otherEntityName := Some (lowerFirst env (camelCase env toName)),
            otherEntityField := Some (lowerFirst env (split_otherEntityField splitField))\<rparr>)
      else if assoc_type association = MANY_TO_MANY then
        (let splitField = extractField (injectedFieldInFrom association) in
         relationship
           \<lparr>relationshipName := Some (camelCase env (split_relationshipName splitField)),
            otherEntityName := Some (lowerFirst env (camelCase env toName)),
            otherEntityField := Some (lowerFirst env (split_otherEntityField splitField)),
            ownerSide := Some True\<rparr>)
      else relationship)"

text \<open>The record \<^verbatim>\<open>otherSideRelationship\<close> of lines 323 to 330.\<close>

definition otherSideRelationship ::
  "env \<Rightarrow> association \<Rightarrow> string \<Rightarrow> nat \<Rightarrow> relationship" where
  "otherSideRelationship env association fromName n =
     (let otherSplitField = extractField (injectedFieldInTo association) in
      (newRelationship n MANY_TO_ONE)
        \<lparr>relationshipName := Some (camelCase env (lowerFirst env fromName)),
         otherEntityName := Some (lowerFirst env (camelCase env fromName)),
         otherEntityField := Some (lowerFirst env (split_otherEntityField otherSplitField))\<rparr>)"

text \<open>\<^verbatim>\<open>entities[classId].relationships.push(relationship)\<close>, on an entity that exists.\<close>

definition pushRelationship :: "string \<Rightarrow> relationship \<Rightarrow> globals \<Rightarrow> globals" where
  "pushRelationship classId r g =
     g\<lparr>entities :=
         AList.map_entry classId (\<lambda>e. e\<lparr>relationships := relationships e @ [r]\<rparr>) (entities g)\<rparr>"

text \<open>An assignment to a property of the association object stored under \<open>associationId\<close>.\<close>

definition updateAssociation ::
  "string \<Rightarrow> (association \<Rightarrow> association) \<Rightarrow> globals \<Rightarrow> globals" where
  "updateAssociation associationId f g =
     g\<lparr>parsedDataOf :=
         (parsedDataOf g)\<lparr>associations :=
            AList.map_entry associationId f (associations (parsedDataOf g))\<rparr>\<rparr>"

text \<open>The callback of \<^verbatim>\<open>associations.from.forEach\<close> (lines 296 to 347).\<close>

definition fromStep :: "env \<Rightarrow> string \<Rightarrow> string \<Rightarrow> globals \<Rightarrow> result" where
  "fromStep env classId associationId g =
     (case getAssociation (parsedDataOf g) associationId of
        None \<Rightarrow> Inl (TypeError, g)
      | Some association \<Rightarrow>
     (case getClass (parsedDataOf g) (assoc_from association) of
        None \<Rightarrow> Inl (TypeError, g)
      | Some fromClass \<Rightarrow>
     (case getClass (parsedDataOf g) (assoc_to association) of
        None \<Rightarrow> Inl (TypeError, g)
      | Some toClass \<Rightarrow>
     if \<not> checkValidityOfAssociation env association (class_name fromClass) (class_name toClass)
     then Inl (InvalidAssociation (class_name fromClass) (class_name toClass), g)
     else
     (case map_of (entities g) classId of
        None \<Rightarrow> Inl (TypeError, g)
      | Some entity \<Rightarrow>
          (let relationship =
                 fromRelationship env association (class_name fromClass) (class_name toClass)
                   (length (relationships entity) + 1)
           in if assoc_type association = ONE_TO_MANY \<and> \<not> truthy (injectedFieldInTo association)
              then (case map_of (entities g) (assoc_to association) of
                      None \<Rightarrow> Inl (TypeError, g)
                    | Some toEntity \<Rightarrow>
                        (let other =
                               otherSideRelationship env association (class_name fromClass)
                                 (length (relationships toEntity) + 1);
                             g1 = updateAssociation associationId
                                    (\<lambda>a. a\<lparr>assoc_type := MANY_TO_ONE\<rparr>) g;
                             g2 = pushRelationship (assoc_to association) other g1
                         in Inr (pushRelationship classId relationship g2)))
              else Inr (pushRelationship classId relationship g))))))"

text \<open>
  The record \<^verbatim>\<open>relationship\<close> that the callback of \<^verbatim>\<open>associations.to.forEach\<close> builds (lines
  352 to 380); \<open>association\<close> is the association after the assignment of line 364.
\<close>

definition toRelationship :: "env \<Rightarrow> association \<Rightarrow> string \<Rightarrow> nat \<Rightarrow> relationship" where
  "toRelationship env association fromName n =
     (let relationship =
            newRelationship n
              (if assoc_type association = ONE_TO_MANY then MANY_TO_ONE
               else assoc_type association)
      in
      if assoc_type association = ONE_TO_ONE then
        (let splitField = extractField (injectedFieldInTo association);
             otherSplitField = extractField (injectedFieldInFrom association) in
         relationship
           \<lparr>relationshipName := Some (camelCase env (split_relationshipName splitField)),
            otherEntityName := Some (lowerFirst env (camelCase env fromName)),
            ownerSide := Some False,
            otherEntityRelationshipName :=
              Some (lowerFirst env (split_relationshipName otherSplitField))\<rparr>)
      else if assoc_type association = ONE_TO_MANY then
        (let splitField = extractField (injectedFieldInTo association) in
         relationship
           \<lparr>relationshipName :=
              Some (lowerFirst env (camelCase env
                (orElse (Some (split_relationshipName splitField)) fromName))),
            otherEntityName := Some (lowerFirst env (camelCase env fromName)),
            otherEntityField := Some (lowerFirst env (split_otherEntityField splitField))\<rparr>)
      else if assoc_type association = MANY_TO_ONE \<and> truthy (injectedFieldInTo association) then
        (let splitField = extractField (injectedFieldInTo association) in
         relationship
           \<lparr>relationshipName := Some (camelCase env (split_relationshipName splitField)),
            otherEntityName := Some (lowerFirst env (camelCase env fromName)),
            otherEntityField := Some (lowerFirst env (split_otherEntityField splitField))\<rparr>)
      else if assoc_type association = MANY_TO_MANY then
        (let splitField = extractField (injectedFieldInTo association) in
         relationship
           \<lparr>relationshipName := Some (camelCase env (split_relationshipName splitField)),
            otherEntityName := Some (lowerFirst env (camelCase env fromName)),
            ownerSide := Some False,
            otherEntityRelationshipName :=
              Some (lowerFirst env
                (split_relationshipName (extractField (injectedFieldInFrom association))))\<rparr>)
      else relationship)"

text \<open>
  The callback of \<^verbatim>\<open>associations.to.forEach\<close> (lines 348 to 382). The name of the source
  class is read in every branch but the one that sets nothing (a \<^verbatim>\<open>MANY_TO_ONE\<close> with a
  falsy \<^verbatim>\<open>injectedFieldInTo\<close>).
\<close>

definition toStep :: "env \<Rightarrow> string \<Rightarrow> string \<Rightarrow> globals \<Rightarrow> result" where
  "toStep env classId associationId g =
     (case getAssociation (parsedDataOf g) associationId of
        None \<Rightarrow> Inl (TypeError, g)
      | Some association \<Rightarrow>
     (case map_of (entities g) classId of
        None \<Rightarrow> Inl (TypeError, g)
      | Some entity \<Rightarrow>
          (let n = length (relationships entity) + 1 in
           if assoc_type association = MANY_TO_ONE \<and> \<not> truthy (injectedFieldInTo association)
           then Inr (pushRelationship classId (toRelationship env association [] n) g)
           else
             (case getClass (parsedDataOf g) (assoc_from association) of
                None \<Rightarrow> Inl (TypeError, g)
              | Some fromClass \<Rightarrow>
                  (let assign = (\<lambda>a. a\<lparr>injectedFieldInTo :=
                                   Some (orElse (injectedFieldInTo a)
                                          (lowerFirst env (assoc_from a)))\<rparr>);
                       association' = (if assoc_type association = ONE_TO_MANY
                                       then assign association else association);
                       g1 = (if assoc_type association = ONE_TO_MANY
                             then updateAssociation associationId assign g else g)
                   in Inr (pushRelationship classId
                             (toRelationship env association' (class_name fromClass) n) g1))))))"

definition setRelationshipOfEntity :: "env \<Rightarrow> string \<Rightarrow> globals \<Rightarrow> result" where
  "setRelationshipOfEntity env classId g =
     (case getRelatedAssociations classId (map fst (associations (parsedDataOf g)))
             (associations (parsedDataOf g)) ([], []) of
        None \<Rightarrow> Inl (TypeError, g)
      | Some related \<Rightarrow>
          (case forEach (fromStep env classId) (fst related) g of
             Inl e \<Rightarrow> Inl e
           | Inr g1 \<Rightarrow> forEach (toStep env classId) (snd related) g1))"

section \<open>The pipeline\<close>

definition USER :: string where
  "USER = ''user''"

text \<open>The callback of \<^verbatim>\<open>Object.keys(parsedData.classes).forEach\<close> in \<^verbatim>\<open>fillEntities\<close>.\<close>

definition fillEntities_step :: "env \<Rightarrow> string \<Rightarrow> globals \<Rightarrow> result" where
  "fillEntities_step env classId g =
     (case getClass (parsedDataOf g) classId of
        None \<Rightarrow> Inl (TypeError, g)
      | Some c \<Rightarrow>
          (let g1 = (if toLowerCase (class_name c) = USER
                     then g\<lparr>entitiesToSuppress := entitiesToSuppress g @ [classId]\<rparr> else g)
           in case setFieldsOfEntity env classId g1 of
                Inl e \<Rightarrow> Inl e
              | Inr g2 \<Rightarrow> setRelationshipOfEntity env classId g2))"

text \<open>\<^verbatim>\<open>entitiesToSuppress.forEach(function (entity) { delete entities[entity]; })\<close>.\<close>

definition suppressEntities :: "globals \<Rightarrow> globals" where
  "suppressEntities g =
     fold (\<lambda>entity g'. g'\<lparr>entities := AList.delete entity (entities g')\<rparr>)
       (entitiesToSuppress g) g"

definition fillEntities :: "env \<Rightarrow> globals \<Rightarrow> result" where
  "fillEntities env g =
     (case forEach (fillEntities_step env) (map fst (classes (parsedDataOf g))) g of
        Inl e \<Rightarrow> Inl e
      | Inr g' \<Rightarrow> Inr (suppressEntities g'))"

text \<open>
  \<^verbatim>\<open>createEntities(args)\<close>. It returns \<^verbatim>\<open>entities\<close>, given here with the module's variables
  after the call, or throws: the exception comes with the module's variables as they are
  then, \<open>None\<close> when \<^verbatim>\<open>init\<close> has not run. What the variables held before the call is
  never read, \<^verbatim>\<open>init\<close> assigns every one of them. The \<^verbatim>\<open>parsedData\<close> of the variables is
  the caller's object, which the call changes in place.
\<close>

definition createEntities ::
  "env \<Rightarrow> args \<Rightarrow> (error \<times> globals option) + ((string \<times> entity) list \<times> globals)" where
  "createEntities env a =
     (let merged = merge a in
      case arg_parsedData merged of
        None \<Rightarrow> Inl (NullPointer, None)
      | Some pd \<Rightarrow>
     (case arg_databaseTypes merged of
        None \<Rightarrow> Inl (NullPointer, None)
      | Some dt \<Rightarrow>
     (case checkNoSQLModeling env (init merged pd dt) of
        Inl (e, g) \<Rightarrow> Inl (e, Some g)
      | Inr g1 \<Rightarrow>
     (case readJSONFiles env g1 of
        Inl (e, g) \<Rightarrow> Inl (e, Some g)
      | Inr g2 \<Rightarrow>
     (case initializeEntities env g2 of
        Inl (e, g) \<Rightarrow> Inl (e, Some g)
      | Inr g3 \<Rightarrow>
     (case fillEntities env g3 of
        Inl (e, g) \<Rightarrow> Inl (e, Some g)
      | Inr g4 \<Rightarrow> Inr (entities g4, g4)))))))"

section \<open>A concrete environment\<close>

text \<open>
  The theorems below hold for every environment. To run the pipeline on a concrete model
  the collaborators are fixed as follows.

  \<^item> \<^verbatim>\<open>_.lowerFirst\<close> lower-cases the first character.
  \<^item> \<^verbatim>\<open>_.camelCase\<close> and \<^verbatim>\<open>_.snakeCase\<close> are given on one word of letters of which at most
    the first is upper case (\<^verbatim>\<open>Author\<close>, \<^verbatim>\<open>books\<close>), where both lower-case the word;
    \<^verbatim>\<open>_.snakeCase(undefined)\<close> is the empty string.
  \<^item> \<^verbatim>\<open>_.capitalize\<close> is given on a word of lower-case letters: the first one is
    upper-cased.
  \<^item> \<^verbatim>\<open>formatComment\<close> is given on a missing comment and on a comment without markup,
    which it returns as they are.
  \<^item> No snapshot file is on the disk, \<^verbatim>\<open>JSON.parse\<close> has nothing to parse, and the clock
    reads 2016-01-02 10:20:10 all along.
\<close>

definition upperChar :: "char \<Rightarrow> char" where
  "upperChar c =
     (case map_of (zip ''abcdefghijklmnopqrstuvwxyz'' ''ABCDEFGHIJKLMNOPQRSTUVWXYZ'') c of
        Some u \<Rightarrow> u
      | None \<Rightarrow> c)"

definition lowerFirstOf :: "string \<Rightarrow> string" where
  "lowerFirstOf s = (case s of [] \<Rightarrow> [] | c # cs \<Rightarrow> lowerChar c # cs)"

definition capitalizeOf :: "string \<Rightarrow> string" where
  "capitalizeOf s = (case s of [] \<Rightarrow> [] | c # cs \<Rightarrow> upperChar c # cs)"

definition snakeCaseOf :: "string option \<Rightarrow> string" where
  "snakeCaseOf s = (case s of None \<Rightarrow> [] | Some w \<Rightarrow> toLowerCase w)"

text \<open>
  Modelled from the spec: \<^verbatim>\<open>isNoSQL\<close> of \<^verbatim>\<open>lib/types/types_helper\<close>, which is not among the
  sources. The specification speaks of a non-relational storage mode without naming the
  descriptors; here the descriptors named \<^verbatim>\<open>mongodb\<close> and \<^verbatim>\<open>cassandra\<close> are the
  non-relational ones.
\<close>

definition isNoSQLOf :: "databaseTypes \<Rightarrow> bool" where
  "isNoSQLOf dt = (dt = DatabaseTypes ''mongodb'' \<or> dt = DatabaseTypes ''cassandra'')"

text \<open>
  Modelled from the spec: \<^verbatim>\<open>checkValidityOfAssociation\<close> of
  \<^verbatim>\<open>lib/helpers/association_helper\<close>, which is not among the sources. The specification
  asks for endpoints that are distinct class references; \<open>False\<close> is the
  association-validity error.
\<close>

definition checkValidityOf :: "association \<Rightarrow> string \<Rightarrow> string \<Rightarrow> bool" where
  "checkValidityOf association sourceName destinationName =
     (assoc_from association \<noteq> assoc_to association)"

definition exampleNow :: now_utc where
  "exampleNow =
     \<lparr>getFullYear = 2016, getMonth = 0, getDate = 2, getHours = 10, getMinutes = 20,
      getSeconds = 10\<rparr>"

definition exampleEnv :: env where
  "exampleEnv =
     \<lparr>camelCase = toLowerCase,
      lowerFirst = lowerFirstOf,
      snakeCase = snakeCaseOf,
      capitalize = capitalizeOf,
      formatComment = (\<lambda>c. c),
      isNoSQL = isNoSQLOf,
      checkValidityOfAssociation = checkValidityOf,
      files = (\<lambda>f. None),
      JSON_parse = (\<lambda>t. None),
      clock = (\<lambda>i. exampleNow)\<rparr>"

definition exampleClass :: "string \<Rightarrow> class_model" where
  "exampleClass n =
     \<lparr>class_name = n, class_fields = [], class_dto = None, class_pagination = None,
      class_service = None, class_microserviceName = None, class_searchEngine = None,
      class_comment = None, class_tableName = Some n\<rparr>"

definition exampleModel :: "(string \<times> class_model) list \<Rightarrow> (string \<times> association) list \<Rightarrow> parsedData" where
  "exampleModel cs as =
     \<lparr>classes = cs, fieldModels = [], types = [], enums = [], validations = [],
      associations = as\<rparr>"

definition exampleArgs :: "parsedData \<Rightarrow> string \<Rightarrow> args" where
  "exampleArgs pd dt =
     \<lparr>arg_parsedData = Some pd, arg_databaseTypes = Some (DatabaseTypes dt),
      arg_listDTO = None, arg_listPagination = None, arg_listService = None,
      arg_microserviceNames = None, arg_searchEngines = None\<rparr>"

text \<open>The example of the specification: a \<^verbatim>\<open>ONE_TO_MANY\<close> from \<^verbatim>\<open>Author\<close> to \<^verbatim>\<open>Book\<close>.\<close>

definition authorBook :: parsedData where
  "authorBook =
     exampleModel [(''c1'', exampleClass ''Author''), (''c2'', exampleClass ''Book'')]
       [(''a1'', \<lparr>assoc_from = ''c1'', assoc_to = ''c2'', assoc_type = ONE_TO_MANY,
                 injectedFieldInFrom = Some ''books'', injectedFieldInTo = None\<rparr>)]"

section \<open>The changelog date as the specification words it\<close>

text \<open>
  The specification asks for \<open>base_time + i\<close> seconds, formatted as the 14 digits
  \<^verbatim>\<open>YYYYMMDDHHMMSS\<close> with every component zero-padded to its width. The definitions of
  this section follow these words, to be compared with \<^const>\<open>dateFormatForLiquibase\<close>.
\<close>

definition padTo :: "nat \<Rightarrow> string \<Rightarrow> string" where
  "padTo w s = replicate (w - length s) CHR ''0'' @ s"

definition formatYMDHMS :: "now_utc \<Rightarrow> string" where
  "formatYMDHMS t =
     padTo 4 (numberToString (getFullYear t)) @ padTo 2 (numberToString (getMonth t + 1))
     @ padTo 2 (numberToString (getDate t)) @ padTo 2 (numberToString (getHours t))
     @ padTo 2 (numberToString (getMinutes t)) @ padTo 2 (numberToString (getSeconds t))"

definition leapYear :: "nat \<Rightarrow> bool" where
  "leapYear y = (y mod 4 = 0 \<and> (y mod 100 \<noteq> 0 \<or> y mod 400 = 0))"

definition daysInMonth :: "nat \<Rightarrow> nat \<Rightarrow> nat" where
  "daysInMonth y m =
     (if m = 1 then (if leapYear y then 29 else 28)
      else if m = 3 \<or> m = 5 \<or> m = 8 \<or> m = 10 then 30 else 31)"

text \<open>One second later, the carry going as far as the year.\<close>

definition addSecond :: "now_utc \<Rightarrow> now_utc" where
  "addSecond t =
     (if getSeconds t < 59 then t\<lparr>getSeconds := getSeconds t + 1\<rparr>
      else if getMinutes t < 59 then t\<lparr>getSeconds := 0, getMinutes := getMinutes t + 1\<rparr>
      else if getHours t < 23
        then t\<lparr>getSeconds := 0, getMinutes := 0, getHours := getHours t + 1\<rparr>
      else if getDate t < daysInMonth (getFullYear t) (getMonth t)
        then t\<lparr>getSeconds := 0, getMinutes := 0, getHours := 0, getDate := getDate t + 1\<rparr>
      else if getMonth t < 11
        then t\<lparr>getSeconds := 0, getMinutes := 0, getHours := 0, getDate := 1,
               getMonth := getMonth t + 1\<rparr>
      else t\<lparr>getSeconds := 0, getMinutes := 0, getHours := 0, getDate := 1, getMonth := 0,
             getFullYear := getFullYear t + 1\<rparr>)"

definition addSeconds :: "now_utc \<Rightarrow> nat \<Rightarrow> now_utc" where
  "addSeconds t i = (addSecond ^^ i) t"

definition spec_changelogDate :: "now_utc \<Rightarrow> nat \<Rightarrow> string" where
  "spec_changelogDate base_time i = formatYMDHMS (addSeconds base_time i)"

text \<open>A reading of the clock whose components are in their ranges, the year of four digits.\<close>

definition wellFormedTime :: "now_utc \<Rightarrow> bool" where
  "wellFormedTime t =
     (1000 \<le> getFullYear t \<and> getFullYear t \<le> 9999 \<and> getMonth t < 12
      \<and> 1 \<le> getDate t \<and> getDate t \<le> 31 \<and> getHours t < 24 \<and> getMinutes t < 60
      \<and> getSeconds t < 60)"

text \<open>
  To tell two dates apart: the minutes of a reading, counted so that a later reading has
  the greater count when the components below the year are in range, and the number that
  a string of digits writes.
\<close>

definition minuteIndex :: "now_utc \<Rightarrow> nat" where
  "minuteIndex t =
     (((getFullYear t * 12 + getMonth t) * 32 + getDate t) * 24 + getHours t) * 60
     + getMinutes t"

definition inRange :: "now_utc \<Rightarrow> bool" where
  "inRange t =
     (getMonth t < 12 \<and> 1 \<le> getDate t \<and> getDate t \<le> 31 \<and> getHours t < 24
      \<and> getMinutes t < 60 \<and> getSeconds t < 60)"

definition readNumber :: "string \<Rightarrow> nat" where
  "readNumber s = foldl (\<lambda>a c. 10 * a + (of_char c - 48)) 0 s"

text \<open>The name of the snapshot file of a class, as \<^verbatim>\<open>readJSONFiles\<close> builds it.\<close>

definition snapshotFile :: "class_model \<Rightarrow> string" where
  "snapshotFile c = ''.jhipster/'' @ class_name c @ ''.json''"

section \<open>What resolving fields and relationships leaves alone\<close>

text \<open>
  Between two states of the module's variables: the classes, the identifiers of the
  associations, the identifiers of the entities, the list of entities to suppress and the
  changelog date of every entity are the same.
\<close>

definition frame :: "globals \<Rightarrow> globals \<Rightarrow> bool" where
  "frame g g' \<longleftrightarrow>
     classes (parsedDataOf g') = classes (parsedDataOf g)
     \<and> map fst (associations (parsedDataOf g')) = map fst (associations (parsedDataOf g))
     \<and> map fst (entities g') = map fst (entities g)
     \<and> entitiesToSuppress g' = entitiesToSuppress g
     \<and> map (changelogDate \<circ> snd) (entities g') = map (changelogDate \<circ> snd) (entities g)"

text \<open>The test of \<^verbatim>\<open>fillEntities\<close> on the class stored under an identifier.\<close>

definition isUser :: "parsedData \<Rightarrow> string \<Rightarrow> bool" where
  "isUser pd classId =
     (case getClass pd classId of None \<Rightarrow> False | Some c \<Rightarrow> toLowerCase (class_name c) = USER)"

section \<open>Observations and further concrete inputs\<close>

text \<open>What a call of \<^const>\<open>createEntities\<close> returned for a class: the changelog date and the
  relationships of its entity, \<open>None\<close> when the call threw or returned no such entity.\<close>

definition changelogDateOf ::
  "(error \<times> globals option) + ((string \<times> entity) list \<times> globals) \<Rightarrow> string
     \<Rightarrow> string option option" where
  "changelogDateOf r classId =
     (case r of Inl x \<Rightarrow> None | Inr (ents, g) \<Rightarrow> map_option changelogDate (map_of ents classId))"

definition relationshipsOf ::
  "(error \<times> globals option) + ((string \<times> entity) list \<times> globals) \<Rightarrow> string
     \<Rightarrow> relationship list option" where
  "relationshipsOf r classId =
     (case r of Inl x \<Rightarrow> None | Inr (ents, g) \<Rightarrow> map_option relationships (map_of ents classId))"

text \<open>The caller's parsed data after a call that returned.\<close>

definition parsedDataAfter ::
  "(error \<times> globals option) + ((string \<times> entity) list \<times> globals) \<Rightarrow> parsedData option" where
  "parsedDataAfter r = (case r of Inl x \<Rightarrow> None | Inr (ents, g) \<Rightarrow> Some (parsedDataOf g))"

text \<open>The clock reads 2016-01-02 10:20:59 all along.\<close>

definition lateNow :: now_utc where
  "lateNow = exampleNow\<lparr>getSeconds := 59\<rparr>"

definition lateEnv :: env where
  "lateEnv = exampleEnv\<lparr>clock := (\<lambda>i. lateNow)\<rparr>"

text \<open>
  One hour after \<^const>\<open>exampleNow\<close>, with the snapshot of \<^verbatim>\<open>Author\<close> on the disk: a file whose
  text parses to an object with the changelog date that the run under \<^const>\<open>exampleEnv\<close>
  gave to \<^verbatim>\<open>Author\<close>.
\<close>

definition snapshotEnv :: env where
  "snapshotEnv =
     exampleEnv
       \<lparr>files := (\<lambda>f. if f = ''.jhipster/Author.json'' then Some ''{changelogDate: 20160102102010}''
                       else None),
        JSON_parse := (\<lambda>t. if t = ''{changelogDate: 20160102102010}''
                            then Some (Truthy (Some ''20160102102010'')) else None),
        clock := (\<lambda>i. exampleNow\<lparr>getHours := 11\<rparr>)\<rparr>"

text \<open>
  \<open>n\<close> classes without associations, with the identifiers \<^verbatim>\<open>c0\<close>, \<^verbatim>\<open>c1\<close>, ... and the names
  \<^verbatim>\<open>Caa\<close>, \<^verbatim>\<open>Cab\<close>, ..., for \<open>n\<close> up to 100.
\<close>

definition crowd :: "nat \<Rightarrow> parsedData" where
  "crowd n =
     exampleModel
       (map (\<lambda>k. (CHR ''c'' # numberToString k,
                   exampleClass [CHR ''C'', ''abcdefghij'' ! (k div 10), ''abcdefghij'' ! (k mod 10)]))
          [0..<n])
       []"

text \<open>A class named \<^verbatim>\<open>User\<close> at the end of a \<^verbatim>\<open>MANY_TO_ONE\<close> association from \<^verbatim>\<open>Author\<close>.\<close>

definition authorUser :: parsedData where
  "authorUser =
     exampleModel [(''c1'', exampleClass ''Author''), (''c2'', exampleClass ''User'')]
       [(''a1'', \<lparr>assoc_from = ''c1'', assoc_to = ''c2'', assoc_type = MANY_TO_ONE,
                 injectedFieldInFrom = Some ''user'', injectedFieldInTo = None\<rparr>)]"

section \<open>Counting relationship records\<close>

text \<open>
  The association as the module leaves it once its source class has been resolved: a
  \<^verbatim>\<open>ONE_TO_MANY\<close> without \<^verbatim>\<open>injectedFieldInTo\<close> is stored as a \<^verbatim>\<open>MANY_TO_ONE\<close>.
\<close>

definition synthesizes :: "association \<Rightarrow> bool" where
  "synthesizes x = (assoc_type x = ONE_TO_MANY \<and> \<not> truthy (injectedFieldInTo x))"

definition normalize :: "association \<Rightarrow> association" where
  "normalize x = (if synthesizes x then x\<lparr>assoc_type := MANY_TO_ONE\<rparr> else x)"

text \<open>The number of associations that leave a class, and of those that arrive at it with
  an \<^verbatim>\<open>injectedFieldInTo\<close> or as a \<^verbatim>\<open>ONE_TO_MANY\<close>.\<close>

definition leaving :: "parsedData \<Rightarrow> string \<Rightarrow> nat" where
  "leaving pd classId = length (filter (\<lambda>p. assoc_from (snd p) = classId) (associations pd))"

definition arriving :: "parsedData \<Rightarrow> string \<Rightarrow> nat" where
  "arriving pd classId =
     length (filter (\<lambda>p. assoc_to (snd p) = classId
                         \<and> (truthy (injectedFieldInTo (snd p)) \<or> assoc_type (snd p) = ONE_TO_MANY))
               (associations pd))"

text \<open>The number of relationship records of the entity of a class, and the number of
  associations towards the class that still are to synthesize a record on it.\<close>

definition relCount :: "globals \<Rightarrow> string \<Rightarrow> nat" where
  "relCount g classId =
     (case map_of (entities g) classId of None \<Rightarrow> 0 | Some e \<Rightarrow> length (relationships e))"

definition pending :: "(string \<times> association) list \<Rightarrow> string \<Rightarrow> nat" where
  "pending as classId =
     length (filter (\<lambda>p. assoc_to (snd p) = classId \<and> synthesizes (snd p)) as)"

definition resolved :: "(string \<Rightarrow> association \<Rightarrow> bool) \<Rightarrow> (string \<times> association) list
    \<Rightarrow> (string \<times> association) list" where
  "resolved done as = map (\<lambda>p. (fst p, if done (fst p) (snd p) then normalize (snd p) else snd p)) as"

definition potential :: "globals \<Rightarrow> string \<Rightarrow> nat" where
  "potential g classId = relCount g classId + pending (associations (parsedDataOf g)) classId"


text \<open>A \<^verbatim>\<open>MANY_TO_ONE\<close> association from \<^verbatim>\<open>Author\<close> to \<^verbatim>\<open>Book\<close> with only
  \<^verbatim>\<open>injectedFieldInTo\<close>.\<close>

definition manyToOneBack :: parsedData where
  "manyToOneBack =
     exampleModel [(''c1'', exampleClass ''Author''), (''c2'', exampleClass ''Book'')]
       [(''a1'', \<lparr>assoc_from = ''c1'', assoc_to = ''c2'', assoc_type = MANY_TO_ONE,
                 injectedFieldInFrom = None, injectedFieldInTo = Some ''authors''\<rparr>)]"

text \<open>A \<^verbatim>\<open>ONE_TO_ONE\<close> association from \<^verbatim>\<open>Author\<close> to \<^verbatim>\<open>Book\<close> with only
  \<^verbatim>\<open>injectedFieldInFrom\<close>.\<close>

definition oneToOne :: parsedData where
  "oneToOne =
     exampleModel [(''c1'', exampleClass ''Author''), (''c2'', exampleClass ''Book'')]
       [(''a1'', \<lparr>assoc_from = ''c1'', assoc_to = ''c2'', assoc_type = ONE_TO_ONE,
                 injectedFieldInFrom = Some ''book'', injectedFieldInTo = None\<rparr>)]"

section \<open>Records that stay\<close>

text \<open>The entity of a class holds a relationship record with a given property; and, between
  two states of the module's variables, no entity and no relationship record is lost.\<close>

definition hasRecord :: "(relationship \<Rightarrow> bool) \<Rightarrow> string \<Rightarrow> globals \<Rightarrow> bool" where
  "hasRecord P classId g =
     (\<exists>e r. map_of (entities g) classId = Some e \<and> r \<in> set (relationships e) \<and> P r)"

definition grows :: "globals \<Rightarrow> globals \<Rightarrow> bool" where
  "grows g g' =
     (\<forall>k e. map_of (entities g) k = Some e
        \<longrightarrow> (\<exists>e'. map_of (entities g') k = Some e' \<and> set (relationships e) \<subseteq> set (relationships e')))"


section \<open>Loops and exceptions\<close>

lemma forEach_inv:
  assumes "forEach f xs g = Inr g'" and "I g"
    and "\<And>x a b. x \<in> set xs \<Longrightarrow> I a \<Longrightarrow> f x a = Inr b \<Longrightarrow> I b"
  shows "I g'"
  using assms
proof (induction xs arbitrary: g)
  case Nil
  then show ?case by simp
next
  case (Cons x xs)
  from Cons.prems(1) obtain g1 where s: "f x g = Inr g1" and r: "forEach f xs g1 = Inr g'"
    by (auto split: sum.splits)
  have g1: "I g1" using Cons.prems(3)[of x g g1] Cons.prems(2) s by simp
  have step: "I b" if "y \<in> set xs" "I a" "f y a = Inr b" for y a b
    using Cons.prems(3)[of y a b] that by simp
  show ?case by (rule Cons.IH[OF r g1]) (rule step)
qed

lemma forEach_error:
  assumes "forEach f xs g = Inl (e, g')"
  shows "\<exists>x a. x \<in> set xs \<and> f x a = Inl (e, g')"
  using assms
proof (induction xs arbitrary: g)
  case Nil
  then show ?case by simp
next
  case (Cons x xs)
  show ?case
  proof (cases "f x g")
    case (Inl p)
    then show ?thesis using Cons.prems by auto
  next
    case (Inr g1)
    then have "forEach f xs g1 = Inl (e, g')" using Cons.prems by simp
    from Cons.IH[OF this] show ?thesis by auto
  qed
qed

lemma readJSONFiles_loop_error:
  "readJSONFiles_loop env cs g = Inl (e, g') \<Longrightarrow> e = TypeError \<or> e = SyntaxError"
  by (induction cs arbitrary: g) (auto simp: Let_def split: option.splits)

lemma initializeEntities_loop_error:
  "initializeEntities_loop env cs i g = Inl (e, g') \<Longrightarrow> e = TypeError"
  by (induction cs arbitrary: i g) (auto simp: Let_def split: option.splits)

lemma setFieldsOfEntity_loop_error:
  "setFieldsOfEntity_loop env c fs g = Inl (e, g') \<Longrightarrow> e = TypeError"
  by (induction fs arbitrary: g) (auto simp: Let_def split: option.splits)

lemma setFieldsOfEntity_error:
  "setFieldsOfEntity env c g = Inl (e, g') \<Longrightarrow> e = TypeError"
  by (auto simp: setFieldsOfEntity_def split: option.splits dest: setFieldsOfEntity_loop_error)

lemma fromStep_error:
  "fromStep env c x g = Inl (e, g') \<Longrightarrow> e \<noteq> NoSQLModeling"
  by (auto simp: fromStep_def Let_def split: option.splits if_splits)

lemma toStep_error:
  "toStep env c x g = Inl (e, g') \<Longrightarrow> e \<noteq> NoSQLModeling"
  by (auto simp: toStep_def Let_def split: option.splits if_splits)

lemma setRelationshipOfEntity_error:
  "setRelationshipOfEntity env c g = Inl (e, g') \<Longrightarrow> e \<noteq> NoSQLModeling"
  by (auto simp: setRelationshipOfEntity_def split: option.splits sum.splits
      dest!: forEach_error dest: fromStep_error toStep_error)

lemma fillEntities_step_error:
  "fillEntities_step env c g = Inl (e, g') \<Longrightarrow> e \<noteq> NoSQLModeling"
  by (auto simp: fillEntities_step_def Let_def split: option.splits sum.splits if_splits
      dest: setFieldsOfEntity_error setRelationshipOfEntity_error)

lemma fillEntities_error:
  "fillEntities env g = Inl (e, g') \<Longrightarrow> e \<noteq> NoSQLModeling"
  by (auto simp: fillEntities_def split: sum.splits
      dest!: forEach_error dest: fillEntities_step_error)

lemma merge_mandatory [simp]:
  "arg_parsedData (merge a) = arg_parsedData a"
  "arg_databaseTypes (merge a) = arg_databaseTypes a"
  by (simp_all add: merge_def)

lemma init_simps [simp]:
  "entities (init m pd dt) = []" "entitiesToSuppress (init m pd dt) = []"
  "onDiskEntities (init m pd dt) = []" "parsedDataOf (init m pd dt) = pd"
  "databaseTypesOf (init m pd dt) = dt"
  by (simp_all add: init_def)

lemma exampleArgs_simps [simp]:
  "arg_parsedData (exampleArgs pd dt) = Some pd"
  "arg_databaseTypes (exampleArgs pd dt) = Some (DatabaseTypes dt)"
  by (simp_all add: exampleArgs_def)

section \<open>Non-relational storage\<close>

text \<open>
  Claim C8. \<^verbatim>\<open>createEntities\<close> throws \<^verbatim>\<open>NoSQLModeling\<close> if and only if the parsed data and
  the database types are present, the database types are non-relational and there is at
  least one association. When it does, \<^verbatim>\<open>init\<close> has run and nothing else: the entity map
  and the snapshot cache are empty, and the caller's parsed data is as it was given.
\<close>

theorem createEntities_NoSQLModeling:
  "((\<exists>s. createEntities env a = Inl (NoSQLModeling, s)) \<longleftrightarrow>
      (\<exists>pd dt. arg_parsedData a = Some pd \<and> arg_databaseTypes a = Some dt
         \<and> isNoSQL env dt \<and> associations pd \<noteq> []))
   \<and> (\<forall>s. createEntities env a = Inl (NoSQLModeling, s) \<longrightarrow>
         (\<exists>g. s = Some g \<and> entities g = [] \<and> onDiskEntities g = []
            \<and> arg_parsedData a = Some (parsedDataOf g)))"
proof -
  have r: "readJSONFiles env g1 \<noteq> Inl (NoSQLModeling, g)" for g g1
    by (auto simp: readJSONFiles_def dest: readJSONFiles_loop_error)
  have i: "initializeEntities env g1 \<noteq> Inl (NoSQLModeling, g)" for g g1
    by (auto simp: initializeEntities_def dest: initializeEntities_loop_error)
  have f: "fillEntities env g1 \<noteq> Inl (NoSQLModeling, g)" for g g1
    using fillEntities_error by blast
  show ?thesis
    by (auto simp: createEntities_def Let_def checkNoSQLModeling_def r i f
        split: option.splits sum.splits if_splits)
qed

theorem createEntities_NoSQLModeling_witness:
  "\<exists>g. createEntities exampleEnv (exampleArgs authorBook ''mongodb'') = Inl (NoSQLModeling, Some g)
     \<and> entities g = [] \<and> onDiskEntities g = [] \<and> parsedDataOf g = authorBook"
proof -
  have "isNoSQL exampleEnv (DatabaseTypes ''mongodb'') \<and> associations authorBook \<noteq> []"
    by (simp add: exampleEnv_def isNoSQLOf_def authorBook_def exampleModel_def)
  then show ?thesis
    using createEntities_NoSQLModeling [of exampleEnv "exampleArgs authorBook ''mongodb''"]
    by auto
qed

section \<open>Formatting the changelog date\<close>

lemma length_numberToString_1: "n < 10 \<Longrightarrow> length (numberToString n) = 1"
  by (simp add: numberToString.simps)

lemma length_numberToString_2: "10 \<le> n \<Longrightarrow> n < 100 \<Longrightarrow> length (numberToString n) = 2"
  by (subst numberToString.simps) (simp add: length_numberToString_1)

lemma length_numberToString_3: "100 \<le> n \<Longrightarrow> n < 1000 \<Longrightarrow> length (numberToString n) = 3"
  by (subst numberToString.simps) (simp add: length_numberToString_2)

lemma length_numberToString_4: "1000 \<le> n \<Longrightarrow> n < 10000 \<Longrightarrow> length (numberToString n) = 4"
  by (subst numberToString.simps) (simp add: length_numberToString_3)

lemma digit_in_digits: "d < 10 \<Longrightarrow> digit d \<in> set ''0123456789''"
  unfolding digit_def by (rule nth_mem) simp

lemma numberToString_digits: "set (numberToString n) \<subseteq> set ''0123456789''"
proof (induction n rule: numberToString.induct)
  case (1 n)
  show ?case
  proof (cases "n < 10")
    case True
    then show ?thesis using digit_in_digits[of n] by (subst numberToString.simps) simp
  next
    case False
    have "n mod 10 < 10" by simp
    from digit_in_digits[OF this] "1"[OF False] False show ?thesis
      by (subst numberToString.simps) simp
  qed
qed

lemma pad_padTo: "length s = 1 \<or> length s = 2 \<Longrightarrow> pad s = padTo 2 s"
  by (auto simp: pad_def padTo_def)

lemma padMinute_padTo: "length s = 2 \<Longrightarrow> padMinute s = padTo 2 s"
  by (simp add: padMinute_def padTo_def)

lemma padTo_id: "w \<le> length s \<Longrightarrow> padTo w s = s"
  by (simp add: padTo_def)

lemma length_padTo: "length s \<le> w \<Longrightarrow> length (padTo w s) = w"
  by (simp add: padTo_def)

lemma set_padTo: "set s \<subseteq> set ''0123456789'' \<Longrightarrow> set (padTo w s) \<subseteq> set ''0123456789''"
  by (auto simp: padTo_def)

lemma length_numberToString_le2: "n < 100 \<Longrightarrow> length (numberToString n) = 1 \<or> length (numberToString n) = 2"
  using length_numberToString_1[of n] length_numberToString_2[of n] by (cases "n < 10") auto

lemma dateFormatForLiquibase_format:
  assumes "wellFormedTime now" and "10 \<le> getMinutes now"
  shows "dateFormatForLiquibase now i
         = formatYMDHMS (now\<lparr>getSeconds := (getSeconds now + i) mod 60\<rparr>)"
proof -
  have y: "padTo 4 (numberToString (getFullYear now)) = numberToString (getFullYear now)"
    using assms(1) by (simp add: padTo_id length_numberToString_4 wellFormedTime_def)
  have mo: "pad (numberToString (Suc (getMonth now))) = padTo 2 (numberToString (Suc (getMonth now)))"
    using assms(1) by (intro pad_padTo length_numberToString_le2) (simp add: wellFormedTime_def)
  have d: "pad (numberToString (getDate now)) = padTo 2 (numberToString (getDate now))"
    using assms(1) by (intro pad_padTo length_numberToString_le2) (simp add: wellFormedTime_def)
  have h: "pad (numberToString (getHours now)) = padTo 2 (numberToString (getHours now))"
    using assms(1) by (intro pad_padTo length_numberToString_le2) (simp add: wellFormedTime_def)
  have mi: "padMinute (numberToString (getMinutes now)) = padTo 2 (numberToString (getMinutes now))"
    using assms by (intro padMinute_padTo length_numberToString_2) (simp_all add: wellFormedTime_def)
  have s: "pad (numberToString ((getSeconds now + i) mod 60))
           = padTo 2 (numberToString ((getSeconds now + i) mod 60))"
    by (intro pad_padTo length_numberToString_le2) simp
  show ?thesis
    by (simp add: dateFormatForLiquibase_def formatYMDHMS_def Let_def y mo d h mi s)
qed

lemma formatYMDHMS_14:
  assumes "wellFormedTime t"
  shows "length (formatYMDHMS t) = 14 \<and> set (formatYMDHMS t) \<subseteq> set ''0123456789''"
proof -
  have "length (padTo 4 (numberToString (getFullYear t))) = 4"
    using assms by (simp add: length_padTo length_numberToString_4 wellFormedTime_def)
  moreover have "length (padTo 2 (numberToString n)) = 2" if "n < 100" for n
    using length_numberToString_le2[OF that] by (auto simp: length_padTo)
  ultimately have "length (formatYMDHMS t) = 14"
    using assms by (simp add: formatYMDHMS_def wellFormedTime_def)
  moreover have "set (padTo w (numberToString n)) \<subseteq> set ''0123456789''" for w n
    by (rule set_padTo) (rule numberToString_digits)
  then have "set (formatYMDHMS t) \<subseteq> set ''0123456789''"
    unfolding formatYMDHMS_def set_append by blast
  ultimately show ?thesis by simp
qed

lemma addSeconds_no_carry:
  "getSeconds t + i < 60 \<Longrightarrow> addSeconds t i = t\<lparr>getSeconds := getSeconds t + i\<rparr>"
proof (induction i)
  case 0
  then show ?case by (simp add: addSeconds_def)
next
  case (Suc i)
  then have "addSeconds t i = t\<lparr>getSeconds := getSeconds t + i\<rparr>" by simp
  then show ?case using Suc.prems by (simp add: addSeconds_def addSecond_def)
qed

section \<open>What the steps of the pipeline leave alone\<close>

lemma frame_refl [simp]: "frame g g"
  by (simp add: frame_def)

lemma frame_trans: "frame a b \<Longrightarrow> frame b c \<Longrightarrow> frame a c"
  by (simp add: frame_def)

lemma map_fst_map_entry [simp]: "map fst (AList.map_entry k f al) = map fst al"
  by (induction al) auto

lemma map_snd_map_entry:
  "(\<And>v. h (f v) = h v) \<Longrightarrow> map (h \<circ> snd) (AList.map_entry k f al) = map (h \<circ> snd) al"
  by (induction al) auto

lemma frame_pushRelationship [simp]: "frame g (pushRelationship c r h) = frame g h"
  by (simp add: frame_def pushRelationship_def map_snd_map_entry)

lemma frame_updateAssociation [simp]: "frame g (updateAssociation x f h) = frame g h"
  by (simp add: frame_def updateAssociation_def)

lemma frame_fromStep: "fromStep env c x g = Inr g' \<Longrightarrow> frame g g'"
  by (auto simp: fromStep_def Let_def split: option.splits if_splits)

lemma frame_toStep: "toStep env c x g = Inr g' \<Longrightarrow> frame g g'"
  by (auto simp: toStep_def Let_def split: option.splits if_splits)

lemma frame_forEach:
  assumes "forEach f xs g = Inr g'" and "\<And>x a b. f x a = Inr b \<Longrightarrow> frame a b"
  shows "frame g g'"
  by (rule forEach_inv[OF assms(1), where I = "frame g"]) (auto intro: frame_trans assms(2))

lemma frame_setRelationshipOfEntity: "setRelationshipOfEntity env c g = Inr g' \<Longrightarrow> frame g g'"
  by (auto simp: setRelationshipOfEntity_def split: option.splits sum.splits
      intro: frame_trans[OF frame_forEach[of "fromStep env c"] frame_forEach[of "toStep env c"]]
        frame_fromStep frame_toStep)

lemma frame_setFieldsOfEntity_loop: "setFieldsOfEntity_loop env c fs g = Inr g' \<Longrightarrow> frame g g'"
proof (induction fs arbitrary: g)
  case Nil
  then show ?case by simp
next
  case (Cons f fs)
  from Cons.prems obtain fd where
    r: "setFieldsOfEntity_loop env c fs
          (g\<lparr>entities := AList.map_entry c (\<lambda>e. e\<lparr>entity_fields := entity_fields e @ [fd]\<rparr>) (entities g)\<rparr>) = Inr g'"
    by (auto simp: Let_def split: option.splits)
  have "frame g (g\<lparr>entities := AList.map_entry c (\<lambda>e. e\<lparr>entity_fields := entity_fields e @ [fd]\<rparr>) (entities g)\<rparr>)"
    by (simp add: frame_def map_snd_map_entry)
  then show ?case using Cons.IH[OF r] by (rule frame_trans)
qed

lemma frame_setFieldsOfEntity: "setFieldsOfEntity env c g = Inr g' \<Longrightarrow> frame g g'"
  by (auto simp: setFieldsOfEntity_def split: option.splits dest: frame_setFieldsOfEntity_loop)


lemma map_of_same_keys:
  "map fst al' = map fst al \<Longrightarrow> map (h \<circ> snd) al' = map (h \<circ> snd) al
   \<Longrightarrow> map_of al' k = Some v' \<Longrightarrow> \<exists>v. map_of al k = Some v \<and> h v' = h v"
proof (induction al arbitrary: al')
  case Nil
  then show ?case by simp
next
  case (Cons p al)
  then obtain p' al'' where al': "al' = p' # al''" by (cases al') auto
  with Cons.prems have hd: "fst p' = fst p" "h (snd p') = h (snd p)"
    and tl: "map fst al'' = map fst al" "map (h \<circ> snd) al'' = map (h \<circ> snd) al"
    by (simp_all add: comp_def)
  show ?case
  proof (cases "k = fst p")
    case True
    then have "v' = snd p'" using Cons.prems(3) al' hd(1) by (cases p') auto
    then show ?thesis using True hd(2) by (cases p) auto
  next
    case False
    then have "map_of al'' k = Some v'" using Cons.prems(3) al' hd(1) by (cases p') auto
    from Cons.IH[OF tl this] show ?thesis using False by (cases p) auto
  qed
qed

lemma frame_date:
  "frame g g' \<Longrightarrow> map_of (entities g') cid = Some e'
   \<Longrightarrow> \<exists>e. map_of (entities g) cid = Some e \<and> changelogDate e' = changelogDate e"
  unfolding frame_def using map_of_same_keys[of "entities g'" "entities g" changelogDate cid e']
  by blast

lemma isUser_classes: "classes pd' = classes pd \<Longrightarrow> isUser pd' = isUser pd"
  by (auto simp: isUser_def getClass_def fun_eq_iff)

lemma frame_fillEntities_step:
  assumes "fillEntities_step env c g = Inr g'"
  shows "frame (g\<lparr>entitiesToSuppress :=
                   entitiesToSuppress g @ (if isUser (parsedDataOf g) c then [c] else [])\<rparr>) g'"
proof -
  from assms obtain cl where cl: "getClass (parsedDataOf g) c = Some cl"
    by (auto simp: fillEntities_step_def split: option.splits)
  define g1 where "g1 = (if toLowerCase (class_name cl) = USER
                     then g\<lparr>entitiesToSuppress := entitiesToSuppress g @ [c]\<rparr> else g)"
  from assms cl obtain g2 where f: "setFieldsOfEntity env c g1 = Inr g2"
    and r: "setRelationshipOfEntity env c g2 = Inr g'"
    by (auto simp: fillEntities_step_def Let_def g1_def split: sum.splits)
  have "g1 = g\<lparr>entitiesToSuppress :=
                   entitiesToSuppress g @ (if isUser (parsedDataOf g) c then [c] else [])\<rparr>"
    using cl by (simp add: g1_def isUser_def)
  then show ?thesis
    using frame_trans[OF frame_setFieldsOfEntity[OF f] frame_setRelationshipOfEntity[OF r]]
    by simp
qed

lemma frame_fillEntities_loop:
  "forEach (fillEntities_step env) cs g = Inr g'
   \<Longrightarrow> frame (g\<lparr>entitiesToSuppress :=
                   entitiesToSuppress g @ filter (isUser (parsedDataOf g)) cs\<rparr>) g'"
proof (induction cs arbitrary: g)
  case Nil
  then show ?case by simp
next
  case (Cons c cs)
  from Cons.prems obtain g1 where s: "fillEntities_step env c g = Inr g1"
    and r: "forEach (fillEntities_step env) cs g1 = Inr g'"
    by (auto split: sum.splits)
  note a = frame_fillEntities_step[OF s] and b = Cons.IH[OF r]
  have "isUser (parsedDataOf g1) = isUser (parsedDataOf g)"
    using a by (intro isUser_classes) (simp add: frame_def)
  with a b show ?case by (simp add: frame_def)
qed

lemma suppress_fold_lookup:
  "map_of (entities (fold (\<lambda>entity g'. g'\<lparr>entities := AList.delete entity (entities g')\<rparr>) l g)) cid
   = (if cid \<in> set l then None else map_of (entities g) cid)"
  by (induction l arbitrary: g) (auto simp: delete_conv')

lemma suppressEntities_lookup:
  "map_of (entities (suppressEntities g)) cid
   = (if cid \<in> set (entitiesToSuppress g) then None else map_of (entities g) cid)"
  by (simp add: suppressEntities_def suppress_fold_lookup)

lemma suppress_fold_rest:
  "parsedDataOf (fold (\<lambda>entity g'. g'\<lparr>entities := AList.delete entity (entities g')\<rparr>) l g)
   = parsedDataOf g"
  by (induction l arbitrary: g) auto

lemma suppressEntities_parsedData [simp]:
  "parsedDataOf (suppressEntities g) = parsedDataOf g"
  by (simp add: suppressEntities_def suppress_fold_rest)

text \<open>Reading the snapshots.\<close>

lemma readJSONFiles_loop_frame:
  "readJSONFiles_loop env cs g = Inr g' \<Longrightarrow> g' = g\<lparr>onDiskEntities := onDiskEntities g'\<rparr>"
proof (induction cs arbitrary: g)
  case Nil
  then show ?case by simp
next
  case (Cons c cs)
  show ?case
    using Cons.prems Cons.IH[of g]
      Cons.IH[of "g\<lparr>onDiskEntities := AList.update c v (onDiskEntities g)\<rparr>" for v]
    by (auto simp: Let_def split: option.splits)
qed

lemma readJSONFiles_loop_absent:
  "readJSONFiles_loop env cs g = Inr g' \<Longrightarrow> getClass (parsedDataOf g) cid = Some c
   \<Longrightarrow> files env (snapshotFile c) = None
   \<Longrightarrow> map_of (onDiskEntities g') cid = map_of (onDiskEntities g) cid"
proof (induction cs arbitrary: g)
  case Nil
  then show ?case by simp
next
  case (Cons x cs)
  show ?case
    using Cons.prems Cons.IH[of g]
      Cons.IH[of "g\<lparr>onDiskEntities := AList.update x v (onDiskEntities g)\<rparr>" for v]
    by (auto simp: Let_def snapshotFile_def update_conv' split: option.splits)
qed

lemma readJSONFiles_loop_present:
  "readJSONFiles_loop env cs g = Inr g' \<Longrightarrow> getClass (parsedDataOf g) cid = Some c
   \<Longrightarrow> files env (snapshotFile c) = Some text \<Longrightarrow> JSON_parse env text = Some v
   \<Longrightarrow> cid \<in> set cs \<or> map_of (onDiskEntities g) cid = Some v
   \<Longrightarrow> map_of (onDiskEntities g') cid = Some v"
proof (induction cs arbitrary: g)
  case Nil
  then show ?case by simp
next
  case (Cons x cs)
  from Cons.prems(1) obtain cx where cx: "getClass (parsedDataOf g) x = Some cx"
    by (auto split: option.splits)
  show ?case
  proof (cases "files env (snapshotFile cx)")
    case None
    then have r: "readJSONFiles_loop env cs g = Inr g'"
      using Cons.prems(1) cx by (simp add: snapshotFile_def)
    have "x \<noteq> cid" using None cx Cons.prems(2,3) by auto
    then show ?thesis using Cons.IH[OF r Cons.prems(2,3,4)] Cons.prems(5) by auto
  next
    case (Some tx)
    then obtain w where w: "JSON_parse env tx = Some w"
      and r: "readJSONFiles_loop env cs
                (g\<lparr>onDiskEntities := AList.update x w (onDiskEntities g)\<rparr>) = Inr g'"
      using Cons.prems(1) cx by (auto simp: snapshotFile_def split: option.splits)
    have "x = cid \<Longrightarrow> w = v" using Some w cx Cons.prems(2,3,4) by auto
    then have "cid \<in> set cs \<or>
        map_of (onDiskEntities (g\<lparr>onDiskEntities := AList.update x w (onDiskEntities g)\<rparr>)) cid
        = Some v"
      using Cons.prems(5) by (auto simp: update_conv')
    with Cons.IH[OF r _ Cons.prems(3,4)] Cons.prems(2) show ?thesis by simp
  qed
qed

section \<open>The stages of the pipeline\<close>

lemma getChangelogDate_entities [simp]:
  "getChangelogDate env (g\<lparr>entities := x\<rparr>) = getChangelogDate env g"
  by (simp add: getChangelogDate_def onDiskEntity_def fun_eq_iff)

lemma changelogDate_setOptions [simp]: "changelogDate (setOptions g e n) = changelogDate e"
  by (simp add: setOptions_def Let_def split: option.splits)

lemma initializeEntities_loop_frame:
  "initializeEntities_loop env cs i g = Inr g' \<Longrightarrow> g' = g\<lparr>entities := entities g'\<rparr>"
proof (induction cs arbitrary: i g)
  case Nil
  then show ?case by simp
next
  case (Cons c cs)
  show ?case
    using Cons.prems Cons.IH[of "Suc i" "g\<lparr>entities := AList.update c v (entities g)\<rparr>" for v]
    by (auto simp: Let_def split: option.splits)
qed

lemma initializeEntities_loop_other:
  "initializeEntities_loop env cs i g = Inr g' \<Longrightarrow> cid \<notin> set cs
   \<Longrightarrow> map_of (entities g') cid = map_of (entities g) cid"
proof (induction cs arbitrary: i g)
  case Nil
  then show ?case by simp
next
  case (Cons c cs)
  show ?case
    using Cons.prems Cons.IH[of "Suc i" "g\<lparr>entities := AList.update c v (entities g)\<rparr>" for v]
    by (auto simp: Let_def update_conv' split: option.splits)
qed

lemma initializeEntities_loop_any:
  "initializeEntities_loop env cs i g = Inr g' \<Longrightarrow> map_of (entities g') cid = Some e
   \<Longrightarrow> map_of (entities g) cid = Some e \<or> (\<exists>j. changelogDate e = getChangelogDate env g cid j)"
proof (induction cs arbitrary: i g)
  case Nil
  then show ?case by simp
next
  case (Cons c cs)
  from Cons.prems(1) obtain v where
    r: "initializeEntities_loop env cs (Suc i) (g\<lparr>entities := AList.update c v (entities g)\<rparr>) = Inr g'"
    and v: "changelogDate v = getChangelogDate env g c i"
    by (auto simp: Let_def split: option.splits)
  from Cons.IH[OF r Cons.prems(2)] v show ?case
    by (auto simp: update_conv' split: if_splits)
qed

lemma initializeEntities_loop_index:
  "initializeEntities_loop env cs i g = Inr g' \<Longrightarrow> distinct cs \<Longrightarrow> k < length cs
   \<Longrightarrow> \<exists>e. map_of (entities g') (cs ! k) = Some e
          \<and> changelogDate e = getChangelogDate env g (cs ! k) (i + k)"
proof (induction cs arbitrary: i g k)
  case Nil
  then show ?case by simp
next
  case (Cons c cs)
  from Cons.prems(1) obtain v where
    r: "initializeEntities_loop env cs (Suc i) (g\<lparr>entities := AList.update c v (entities g)\<rparr>) = Inr g'"
    and v: "changelogDate v = getChangelogDate env g c i"
    by (auto simp: Let_def split: option.splits)
  show ?case
  proof (cases k)
    case 0
    have "c \<notin> set cs" using Cons.prems(2) by simp
    from initializeEntities_loop_other[OF r this] v 0 show ?thesis
      by (simp add: update_conv')
  next
    case (Suc k')
    then have "k' < length cs" using Cons.prems(3) by simp
    from Cons.IH[OF r _ this] Cons.prems(2) Suc show ?thesis by simp
  qed
qed

text \<open>The state in which \<^verbatim>\<open>fillEntities\<close> starts, and the one it ends in.\<close>

lemma createEntities_stages:
  assumes "createEntities env a = Inr (ents, g)" and "arg_parsedData a = Some pd"
  obtains dt g2 g3 g' where
    "arg_databaseTypes a = Some dt"
    "readJSONFiles_loop env (map fst (classes pd)) (init (merge a) pd dt) = Inr g2"
    "initializeEntities_loop env (map fst (classes pd)) 0 g2 = Inr g3"
    "forEach (fillEntities_step env) (map fst (classes pd)) g3 = Inr g'"
    "g = suppressEntities g'" "ents = entities g"
    "parsedDataOf g3 = pd" "entitiesToSuppress g3 = []"
proof -
  from assms obtain dt where dt: "arg_databaseTypes a = Some dt"
    by (auto simp: createEntities_def Let_def split: option.splits)
  from assms dt obtain g1 g2 g3 where
    c: "checkNoSQLModeling env (init (merge a) pd dt) = Inr g1"
    and r: "readJSONFiles env g1 = Inr g2"
    and i: "initializeEntities env g2 = Inr g3"
    and f: "fillEntities env g3 = Inr g" and e: "ents = entities g"
    by (auto simp: createEntities_def Let_def split: option.splits sum.splits prod.splits)
  from c have g1: "g1 = init (merge a) pd dt"
    by (auto simp: checkNoSQLModeling_def split: if_splits)
  from r g1 have r': "readJSONFiles_loop env (map fst (classes pd)) (init (merge a) pd dt) = Inr g2"
    by (simp add: readJSONFiles_def)
  have p2: "parsedDataOf g2 = pd"
    by (subst readJSONFiles_loop_frame[OF r']) simp
  have s2: "entitiesToSuppress g2 = []"
    by (subst readJSONFiles_loop_frame[OF r']) simp
  from i p2 have i': "initializeEntities_loop env (map fst (classes pd)) 0 g2 = Inr g3"
    by (simp add: initializeEntities_def)
  have p3: "parsedDataOf g3 = pd"
    by (subst initializeEntities_loop_frame[OF i']) (simp add: p2)
  have s3: "entitiesToSuppress g3 = []"
    by (subst initializeEntities_loop_frame[OF i']) (simp add: s2)
  from f p3 obtain g' where
    "forEach (fillEntities_step env) (map fst (classes pd)) g3 = Inr g'" "g = suppressEntities g'"
    by (auto simp: fillEntities_def split: sum.splits)
  with dt r' i' e p3 s3 show ?thesis using that by blast
qed

section \<open>The changelog date of an entity\<close>

lemma getClass_keys: "getClass pd cid = Some c \<Longrightarrow> cid \<in> set (map fst (classes pd))"
  using map_of_eq_None_iff[of "classes pd" cid] by (auto simp: getClass_def)

lemma createEntities_dates:
  assumes "createEntities env a = Inr (ents, g)" and "arg_parsedData a = Some pd"
    and "map_of ents cid = Some e"
  obtains dt g2 g3 e3 where
    "readJSONFiles_loop env (map fst (classes pd)) (init (merge a) pd dt) = Inr g2"
    "initializeEntities_loop env (map fst (classes pd)) 0 g2 = Inr g3"
    "map_of (entities g3) cid = Some e3" "changelogDate e = changelogDate e3"
proof (rule createEntities_stages[OF assms(1,2)])
  fix dt g2 g3 g'
  assume r: "readJSONFiles_loop env (map fst (classes pd)) (init (merge a) pd dt) = Inr g2"
    and i: "initializeEntities_loop env (map fst (classes pd)) 0 g2 = Inr g3"
    and f: "forEach (fillEntities_step env) (map fst (classes pd)) g3 = Inr g'"
    and g: "g = suppressEntities g'" and e: "ents = entities g"
  have "map_of (entities (suppressEntities g')) cid = Some e"
    using assms(3) unfolding e g .
  then have m: "map_of (entities g') cid = Some e"
    by (simp add: suppressEntities_lookup split: if_splits)
  from frame_date[OF frame_fillEntities_loop[OF f] m] obtain e3 where
    "map_of (entities g3) cid = Some e3" "changelogDate e = changelogDate e3"
    by auto
  with r i show ?thesis by (rule that)
qed

lemma createEntities_snapshot_date:
  assumes "createEntities env a = Inr (ents, g)" and "arg_parsedData a = Some pd"
    and "getClass pd cid = Some c" and "files env (snapshotFile c) = Some text"
    and "JSON_parse env text = Some (Truthy d)" and "map_of ents cid = Some e"
  shows "changelogDate e = d"
proof (rule createEntities_dates[OF assms(1,2,6)])
  fix dt g2 g3 e3
  assume r: "readJSONFiles_loop env (map fst (classes pd)) (init (merge a) pd dt) = Inr g2"
    and i: "initializeEntities_loop env (map fst (classes pd)) 0 g2 = Inr g3"
    and e3: "map_of (entities g3) cid = Some e3" "changelogDate e = changelogDate e3"
  have d: "map_of (onDiskEntities g2) cid = Some (Truthy d)"
    using readJSONFiles_loop_present[OF r _ assms(4,5)] assms(3) getClass_keys[OF assms(3)]
    by simp
  have "entities g2 = []"
    by (subst readJSONFiles_loop_frame[OF r]) simp
  with initializeEntities_loop_any[OF i e3(1)] obtain j where
    "changelogDate e3 = getChangelogDate env g2 cid j" by auto
  with d e3(2) show ?thesis by (simp add: getChangelogDate_def onDiskEntity_def)
qed

lemma createEntities_fresh_date:
  assumes "createEntities env a = Inr (ents, g)" and "arg_parsedData a = Some pd"
    and "distinct (map fst (classes pd))" and "i < length (classes pd)"
    and "classes pd ! i = (cid, c)" and "files env (snapshotFile c) = None"
    and "map_of ents cid = Some e" and "cid \<notin> set objectPrototype"
  shows "changelogDate e = Some (dateFormatForLiquibase (clock env i) i)"
proof (rule createEntities_dates[OF assms(1,2,7)])
  fix dt g2 g3 e3
  assume r: "readJSONFiles_loop env (map fst (classes pd)) (init (merge a) pd dt) = Inr g2"
    and l: "initializeEntities_loop env (map fst (classes pd)) 0 g2 = Inr g3"
    and e3: "map_of (entities g3) cid = Some e3" "changelogDate e = changelogDate e3"
  have k: "map fst (classes pd) ! i = cid" using assms(4,5) by simp
  have "(cid, c) \<in> set (classes pd)" using assms(4) nth_mem[of i "classes pd"] assms(5) by simp
  then have c: "getClass pd cid = Some c" using assms(3) by (simp add: getClass_def)
  have "map_of (onDiskEntities g2) cid = None"
    using readJSONFiles_loop_absent[OF r _ assms(6)] c by simp
  then have "getChangelogDate env g2 cid i = Some (dateFormatForLiquibase (clock env i) i)"
    using assms(8) by (simp add: getChangelogDate_def onDiskEntity_def)
  moreover obtain e' where "map_of (entities g3) cid = Some e'"
    "changelogDate e' = getChangelogDate env g2 cid i"
    using initializeEntities_loop_index[OF l assms(3), of i] assms(4) k by auto
  ultimately show ?thesis using e3 by simp
qed
text \<open>The order of two changelog dates is the order of strings.\<close>

lemma of_char_digit: "d < 10 \<Longrightarrow> of_char (digit d) = 48 + d"
proof -
  assume "d < 10"
  then have "d = 0 \<or> d = 1 \<or> d = 2 \<or> d = 3 \<or> d = 4 \<or> d = 5 \<or> d = 6 \<or> d = 7 \<or> d = 8 \<or> d = 9"
    by arith
  then show ?thesis by (elim disjE) (simp_all add: digit_def)
qed

lemma digit_less: "a < 10 \<Longrightarrow> b < 10 \<Longrightarrow> digit a < digit b \<longleftrightarrow> a < b"
  by (simp add: less_char_def of_char_digit)

lemma digit_eq: "a < 10 \<Longrightarrow> b < 10 \<Longrightarrow> digit a = digit b \<longleftrightarrow> a = b"
  using digit_less[of a b] digit_less[of b a] by (cases a b rule: linorder_cases) auto

lemma two_digits: "n < 100 \<Longrightarrow> pad (numberToString n) = [digit (n div 10), digit (n mod 10)]"
proof (cases "n < 10")
  case True
  then show ?thesis by (simp add: numberToString.simps pad_def digit_def)
next
  case False
  assume "n < 100"
  with False have "n div 10 < 10" by simp
  then have "numberToString n = [digit (n div 10), digit (n mod 10)]"
    using False by (subst numberToString.simps) (simp add: numberToString.simps)
  then show ?thesis by (simp add: pad_def)
qed

lemma pad_seconds_less:
  assumes "a < b" and "b < 60"
  shows "pad (numberToString a) < pad (numberToString b)"
proof -
  have r: "a div 10 < 10" "b div 10 < 10" "a mod 10 < 10" "b mod 10 < 10" using assms by simp_all
  have "a div 10 \<le> b div 10" using assms(1) by (simp add: div_le_mono)
  moreover have "a div 10 = b div 10 \<Longrightarrow> a mod 10 < b mod 10"
    using assms(1) by (metis mod_less_divisor mult_div_mod_eq nat_add_left_cancel_less zero_less_numeral)
  ultimately have "a div 10 < b div 10 \<or> a div 10 = b div 10 \<and> a mod 10 < b mod 10"
    by (cases "a div 10 = b div 10") auto
  moreover have "a < 100" "b < 100" using assms by simp_all
  ultimately show ?thesis using r
    by (simp add: two_digits digit_less digit_eq)
qed

lemma append_less_same [simp]: "xs @ ys < xs @ zs \<longleftrightarrow> ys < (zs :: 'a :: order list)"
  by (induction xs) auto

lemma dateFormatForLiquibase_less:
  assumes "i < j" and "getSeconds now + j < 60"
  shows "dateFormatForLiquibase now i < dateFormatForLiquibase now j"
  using assms pad_seconds_less[of "getSeconds now + i" "getSeconds now + j"]
  by (simp add: dateFormatForLiquibase_def Let_def)

text \<open>Two dates differ as soon as their minutes do.\<close>

lemma readNumber_append:
  "readNumber (s @ [c]) = 10 * readNumber s + (of_char c - 48)"
  by (simp add: readNumber_def)

lemma readNumber_numberToString: "readNumber (numberToString n) = n"
proof (induction n rule: numberToString.induct)
  case (1 n)
  show ?case
  proof (cases "n < 10")
    case True
    then show ?thesis
      by (subst numberToString.simps) (simp add: readNumber_def of_char_digit)
  next
    case False
    have "n mod 10 < 10" by simp
    from of_char_digit[OF this] "1"[OF False] False show ?thesis
      by (subst numberToString.simps) (simp add: readNumber_append)
  qed
qed

lemma readNumber_zeros: "foldl (\<lambda>a c. 10 * a + (of_char c - 48)) 0 (replicate k CHR ''0'') = (0::nat)"
  by (induction k) simp_all

lemma readNumber_padTo: "readNumber (padTo w s) = readNumber s"
  by (simp add: readNumber_def padTo_def readNumber_zeros)

lemma padTo_numberToString_inj:
  "padTo w (numberToString a) = padTo v (numberToString b) \<Longrightarrow> a = b"
  using readNumber_padTo[of w "numberToString a"] readNumber_padTo[of v "numberToString b"]
  by (simp add: readNumber_numberToString)

lemma length_padTo_2: "n < 100 \<Longrightarrow> length (padTo 2 (numberToString n)) = 2"
  using length_numberToString_le2[of n] by (auto simp: length_padTo)


lemma formatYMDHMS_minutes:
  assumes "inRange a" and "inRange b" and "formatYMDHMS a = formatYMDHMS b"
  shows "minuteIndex a = minuteIndex b"
proof -
  have l: "length (padTo 2 (numberToString (getMonth a + 1))) = 2"
    "length (padTo 2 (numberToString (getMonth b + 1))) = 2"
    "length (padTo 2 (numberToString (getDate a))) = 2"
    "length (padTo 2 (numberToString (getDate b))) = 2"
    "length (padTo 2 (numberToString (getHours a))) = 2"
    "length (padTo 2 (numberToString (getHours b))) = 2"
    "length (padTo 2 (numberToString (getMinutes a))) = 2"
    "length (padTo 2 (numberToString (getMinutes b))) = 2"
    "length (padTo 2 (numberToString (getSeconds a))) = 2"
    "length (padTo 2 (numberToString (getSeconds b))) = 2"
    using assms(1,2) by (simp_all add: inRange_def length_padTo_2)
  from assms(3) have
    "padTo 4 (numberToString (getFullYear a)) = padTo 4 (numberToString (getFullYear b))
     \<and> padTo 2 (numberToString (getMonth a + 1)) = padTo 2 (numberToString (getMonth b + 1))
     \<and> padTo 2 (numberToString (getDate a)) = padTo 2 (numberToString (getDate b))
     \<and> padTo 2 (numberToString (getHours a)) = padTo 2 (numberToString (getHours b))
     \<and> padTo 2 (numberToString (getMinutes a)) = padTo 2 (numberToString (getMinutes b))"
    unfolding formatYMDHMS_def using l by (simp add: append_eq_append_conv)
  then have "getFullYear a = getFullYear b \<and> getMonth a + 1 = getMonth b + 1
     \<and> getDate a = getDate b \<and> getHours a = getHours b \<and> getMinutes a = getMinutes b"
    by (blast dest: padTo_numberToString_inj)
  then show ?thesis by (simp add: minuteIndex_def)
qed

lemma daysInMonth_le: "daysInMonth y m \<le> 31"
  by (simp add: daysInMonth_def)

lemma addSecond_inRange: "inRange t \<Longrightarrow> inRange (addSecond t)"
  using daysInMonth_le[of "getFullYear t" "getMonth t"]
  by (auto simp: inRange_def addSecond_def)

lemma addSecond_later:
  assumes "inRange t"
  shows "60 * minuteIndex t + getSeconds t
         < 60 * minuteIndex (addSecond t) + getSeconds (addSecond t)"
  using assms by (auto simp: inRange_def addSecond_def minuteIndex_def)

lemma addSeconds_later:
  assumes "inRange t"
  shows "inRange (addSeconds t i)
         \<and> 60 * minuteIndex t + getSeconds t + i
           \<le> 60 * minuteIndex (addSeconds t i) + getSeconds (addSeconds t i)"
proof (induction i)
  case 0
  show ?case using assms by (simp add: addSeconds_def)
next
  case (Suc i)
  have s: "addSeconds t (Suc i) = addSecond (addSeconds t i)" by (simp add: addSeconds_def)
  from Suc addSecond_inRange[of "addSeconds t i"] addSecond_later[of "addSeconds t i"]
  show ?case unfolding s by linarith
qed

lemma spec_changelogDate_carry:
  assumes "wellFormedTime t" and "60 \<le> getSeconds t + i"
  shows "spec_changelogDate t i \<noteq> formatYMDHMS (t\<lparr>getSeconds := (getSeconds t + i) mod 60\<rparr>)"
proof
  let ?t' = "t\<lparr>getSeconds := (getSeconds t + i) mod 60\<rparr>"
  assume e: "spec_changelogDate t i = formatYMDHMS ?t'"
  have r: "inRange t" using assms(1) by (simp add: wellFormedTime_def inRange_def)
  then have r': "inRange ?t'" by (simp add: inRange_def)
  from addSeconds_later[OF r, of i] have a: "inRange (addSeconds t i)"
    and b: "60 * minuteIndex t + getSeconds t + i
            \<le> 60 * minuteIndex (addSeconds t i) + getSeconds (addSeconds t i)" by simp_all
  from formatYMDHMS_minutes[OF a r'] e
  have "minuteIndex (addSeconds t i) = minuteIndex t"
    by (simp add: spec_changelogDate_def minuteIndex_def)
  moreover have "getSeconds (addSeconds t i) < 60" using a by (simp add: inRange_def)
  ultimately show False using b assms(2) by simp
qed

text \<open>Two changelog dates from one reading are told apart by their seconds.\<close>

lemma pad_seconds_eq:
  assumes "a < 60" and "b < 60"
  shows "pad (numberToString a) = pad (numberToString b) \<longleftrightarrow> a = b"
proof
  assume "pad (numberToString a) = pad (numberToString b)"
  then have "a div 10 = b div 10 \<and> a mod 10 = b mod 10"
    using assms by (simp add: two_digits digit_eq)
  then show "a = b" by (metis mult_div_mod_eq)
qed simp

lemma pad_seconds_less_iff:
  assumes "a < 60" and "b < 60"
  shows "pad (numberToString a) < pad (numberToString b) \<longleftrightarrow> a < b"
proof
  assume l: "pad (numberToString a) < pad (numberToString b)"
  show "a < b"
  proof (cases a b rule: linorder_cases)
    case equal
    with l show ?thesis by simp
  next
    case greater
    from pad_seconds_less[OF greater assms(1)] l show ?thesis by simp
  qed
next
  assume "a < b"
  from pad_seconds_less[OF this assms(2)]
  show "pad (numberToString a) < pad (numberToString b)" .
qed

lemma dateFormatForLiquibase_eq_iff:
  "dateFormatForLiquibase now i = dateFormatForLiquibase now j
   \<longleftrightarrow> (getSeconds now + i) mod 60 = (getSeconds now + j) mod 60"
  using pad_seconds_eq[of "(getSeconds now + i) mod 60" "(getSeconds now + j) mod 60"]
  by (simp add: dateFormatForLiquibase_def Let_def)

lemma dateFormatForLiquibase_less_iff:
  "dateFormatForLiquibase now i < dateFormatForLiquibase now j
   \<longleftrightarrow> (getSeconds now + i) mod 60 < (getSeconds now + j) mod 60"
  using pad_seconds_less_iff[of "(getSeconds now + i) mod 60" "(getSeconds now + j) mod 60"]
  by (simp add: dateFormatForLiquibase_def Let_def)

lemma same_second_iff:
  assumes "i < j"
  shows "(s + i) mod 60 = (s + j) mod 60 \<longleftrightarrow> (j - i) mod 60 = (0::nat)"
proof -
  have "s + i \<le> s + j" using assms by simp
  from mod_eq_dvd_iff_nat[OF this, of 60]
  have "(s + j) mod 60 = (s + i) mod 60 \<longleftrightarrow> 60 dvd (j - i)" by simp
  then show ?thesis by (simp only: mod_eq_0_iff_dvd eq_commute[of "(s + i) mod 60"])
qed

text \<open>A model without fields and associations, with no snapshot on the disk, goes through.\<close>

lemma readJSONFiles_loop_plain:
  "\<forall>k \<in> set cs. getClass (parsedDataOf g) k \<noteq> None \<Longrightarrow> \<forall>f. files env f = None
   \<Longrightarrow> readJSONFiles_loop env cs g = Inr g"
  by (induction cs) (auto simp: Let_def)

lemma initializeEntities_loop_plain:
  "\<forall>k \<in> set cs. getClass (parsedDataOf g) k \<noteq> None
   \<Longrightarrow> \<exists>g'. initializeEntities_loop env cs i g = Inr g'"
proof (induction cs arbitrary: i g)
  case Nil
  show ?case by simp
next
  case (Cons k cs)
  from Cons.prems obtain c where c: "getClass (parsedDataOf g) k = Some c" by auto
  have "\<forall>k \<in> set cs. getClass (parsedDataOf (g\<lparr>entities := x\<rparr>)) k \<noteq> None" for x
    using Cons.prems by simp
  from Cons.IH[OF this] show ?case using c by (simp add: Let_def)
qed

lemma fillEntities_step_plain:
  assumes "getClass (parsedDataOf g) k = Some c" and "class_fields c = []"
    and "associations (parsedDataOf g) = []"
  shows "\<exists>s. fillEntities_step env k g = Inr (g\<lparr>entitiesToSuppress := s\<rparr>)"
proof -
  have m: "map_of (classes (parsedDataOf g)) k = Some c" using assms(1) by (simp add: getClass_def)
  have "fillEntities_step env k g
        = Inr (if toLowerCase (class_name c) = USER
               then g\<lparr>entitiesToSuppress := entitiesToSuppress g @ [k]\<rparr> else g)"
    using assms m
    by (simp add: fillEntities_step_def setFieldsOfEntity_def setRelationshipOfEntity_def Let_def)
  moreover have "g = g\<lparr>entitiesToSuppress := entitiesToSuppress g\<rparr>" by simp
  ultimately show ?thesis by (metis (full_types))
qed

lemma fillEntities_loop_plain:
  "\<forall>k \<in> set cs. \<exists>c. getClass (parsedDataOf g) k = Some c \<and> class_fields c = []
   \<Longrightarrow> associations (parsedDataOf g) = []
   \<Longrightarrow> \<exists>s. forEach (fillEntities_step env) cs g = Inr (g\<lparr>entitiesToSuppress := s\<rparr>)"
proof (induction cs arbitrary: g)
  case Nil
  have "g = g\<lparr>entitiesToSuppress := entitiesToSuppress g\<rparr>" by simp
  then show ?case by (metis forEach.simps(1))
next
  case (Cons k cs)
  from Cons.prems(1) obtain c where
    c: "getClass (parsedDataOf g) k = Some c" "class_fields c = []" by auto
  from fillEntities_step_plain[OF c Cons.prems(2)] obtain s where
    s: "fillEntities_step env k g = Inr (g\<lparr>entitiesToSuppress := s\<rparr>)" by blast
  have "\<exists>t. forEach (fillEntities_step env) cs (g\<lparr>entitiesToSuppress := s\<rparr>)
             = Inr (g\<lparr>entitiesToSuppress := s\<rparr>\<lparr>entitiesToSuppress := t\<rparr>)"
    using Cons.prems by (intro Cons.IH) simp_all
  then show ?case using s by simp
qed

lemma createEntities_plain:
  assumes "arg_parsedData a = Some pd" and "arg_databaseTypes a = Some dt"
    and "associations pd = []" and "\<forall>p \<in> set (classes pd). class_fields (snd p) = []"
    and "\<forall>f. files env f = None" and "distinct (map fst (classes pd))"
    and "i < length (classes pd)" and "classes pd ! i = (k, c)"
    and "\<not> isUser pd k" and "k \<notin> set objectPrototype"
  shows "changelogDateOf (createEntities env a) k
         = Some (Some (dateFormatForLiquibase (clock env i) i))"
proof -
  let ?cs = "map fst (classes pd)"
  let ?g1 = "init (merge a) pd dt"
  have cl: "\<exists>c. getClass pd k = Some c \<and> class_fields c = []" if "k \<in> set ?cs" for k
  proof -
    from that obtain c where "(k, c) \<in> set (classes pd)" by auto
    with assms(4,6) show ?thesis by (auto simp: getClass_def)
  qed
  have r: "readJSONFiles_loop env ?cs ?g1 = Inr ?g1"
    using cl assms(5) by (intro readJSONFiles_loop_plain) auto
  obtain g3 where l: "initializeEntities_loop env ?cs 0 ?g1 = Inr g3"
    using initializeEntities_loop_plain[of ?cs ?g1 env 0] cl by auto
  have p3: "parsedDataOf g3 = pd" by (subst initializeEntities_loop_frame[OF l]) simp
  obtain s where f: "forEach (fillEntities_step env) ?cs g3 = Inr (g3\<lparr>entitiesToSuppress := s\<rparr>)"
    using fillEntities_loop_plain[of ?cs g3 env] cl assms(3) p3 by auto
  let ?g = "suppressEntities (g3\<lparr>entitiesToSuppress := s\<rparr>)"
  have ce: "createEntities env a = Inr (entities ?g, ?g)"
    using assms(1,2,3) r l f p3
    by (simp add: createEntities_def checkNoSQLModeling_def readJSONFiles_def
        initializeEntities_def fillEntities_def Let_def)
  have "entitiesToSuppress g3 = []" by (subst initializeEntities_loop_frame[OF l]) simp
  with frame_fillEntities_loop[OF f] p3 have "s = filter (isUser pd) ?cs"
    by (simp add: frame_def)
  with assms(9) have ks: "k \<notin> set s" by simp
  have "?cs ! i = k" using assms(7,8) by simp
  with initializeEntities_loop_index[OF l assms(6), of i] assms(7) obtain e3 where
    "map_of (entities g3) k = Some e3" by auto
  with ks have e: "map_of (entities ?g) k = Some e3" by (simp add: suppressEntities_lookup)
  have n: "files env (snapshotFile c) = None" using assms(5) by simp
  from createEntities_fresh_date[OF ce assms(1,6,7,8) n e assms(10)] e ce
  show ?thesis by (simp add: changelogDateOf_def)
qed

lemma crowd_distinct: "distinct (map fst (classes (crowd n)))"
proof -
  have "inj numberToString" by (rule inj_on_inverseI[where g = readNumber]) (rule readNumber_numberToString)
  then have "inj (\<lambda>k. CHR ''c'' # numberToString k)" by (simp add: inj_def)
  then have "distinct (map (\<lambda>k. CHR ''c'' # numberToString k) [0..<n])"
    by (simp add: distinct_map inj_on_def inj_def)
  then show ?thesis by (simp add: crowd_def exampleModel_def comp_def)
qed

lemma crowd_plain:
  "associations (crowd n) = []" "\<forall>p \<in> set (classes (crowd n)). class_fields (snd p) = []"
  by (auto simp: crowd_def exampleModel_def exampleClass_def)

lemma crowd_nth:
  "i < n \<Longrightarrow> classes (crowd n) ! i
     = (CHR ''c'' # numberToString i,
        exampleClass [CHR ''C'', ''abcdefghij'' ! (i div 10), ''abcdefghij'' ! (i mod 10)])"
  by (simp add: crowd_def exampleModel_def)

lemma crowd_getClass:
  "i < n \<Longrightarrow> getClass (crowd n) (CHR ''c'' # numberToString i)
     = Some (exampleClass [CHR ''C'', ''abcdefghij'' ! (i div 10), ''abcdefghij'' ! (i mod 10)])"
  using crowd_distinct[of n] crowd_nth[of i n] nth_mem[of i "classes (crowd n)"]
  by (simp add: getClass_def crowd_def exampleModel_def)

lemma crowd_isUser: "i < n \<Longrightarrow> \<not> isUser (crowd n) (CHR ''c'' # numberToString i)"
proof -
  assume "i < n"
  from crowd_getClass[OF this] have
    "isUser (crowd n) (CHR ''c'' # numberToString i)
     \<longleftrightarrow> toLowerCase [CHR ''C'', ''abcdefghij'' ! (i div 10), ''abcdefghij'' ! (i mod 10)] = USER"
    by (simp add: isUser_def exampleClass_def)
  moreover have "length (toLowerCase [a, b, c]) \<noteq> length USER" for a b c
    by (simp add: toLowerCase_def USER_def)
  ultimately show ?thesis by metis
qed

lemma createEntities_classes:
  assumes "createEntities env a = Inr (ents, g)" and "arg_parsedData a = Some pd"
  shows "classes (parsedDataOf g) = classes pd"
proof (rule createEntities_stages[OF assms])
  fix dt g2 g3 g'
  assume r: "readJSONFiles_loop env (map fst (classes pd)) (init (merge a) pd dt) = Inr g2"
    and i: "initializeEntities_loop env (map fst (classes pd)) 0 g2 = Inr g3"
    and f: "forEach (fillEntities_step env) (map fst (classes pd)) g3 = Inr g'"
    and g: "g = suppressEntities g'"
  have "parsedDataOf g2 = pd" by (subst readJSONFiles_loop_frame[OF r]) simp
  then have "parsedDataOf g3 = pd" by (subst initializeEntities_loop_frame[OF i]) simp
  with frame_fillEntities_loop[OF f] g show ?thesis by (simp add: frame_def)
qed

lemma returned:
  "\<not> isl r \<Longrightarrow> r = Inr (fst (projr r), snd (projr r))"
  by (cases r) auto

lemma changelogDateOf_Some:
  "changelogDateOf r cid = Some d
   \<Longrightarrow> \<exists>e. map_of (fst (projr r)) cid = Some e \<and> changelogDate e = d \<and> \<not> isl r"
  by (cases r) (auto simp: changelogDateOf_def)

text \<open>
  Claim C7. A first run gives the entity of a class a changelog date. When the snapshot
  file of that class holds this date, a second run on the same arguments (the parsed data
  being the caller's object as the first run left it), at any time, gives the entity of
  the class the date of the snapshot.
\<close>

theorem snapshot_changelogDate_kept:
  assumes "createEntities env1 a = Inr (ents1, g1)"
    and "arg_parsedData a = Some pd" and "getClass pd classId = Some c"
    and "map_of ents1 classId = Some e1"
    and "files env2 (snapshotFile c) = Some text"
    and "JSON_parse env2 text = Some (Truthy (changelogDate e1))"
    and "createEntities env2 (a\<lparr>arg_parsedData := Some (parsedDataOf g1)\<rparr>) = Inr (ents2, g2)"
    and "map_of ents2 classId = Some e2"
  shows "changelogDate e2 = changelogDate e1"
proof -
  have "getClass (parsedDataOf g1) classId = Some c"
    using createEntities_classes[OF assms(1,2)] assms(3) by (simp add: getClass_def)
  from createEntities_snapshot_date[OF assms(7) _ this assms(5,6,8)] show ?thesis by simp
qed

theorem snapshot_changelogDate_kept_witness:
  "changelogDateOf (createEntities exampleEnv (exampleArgs authorBook ''sql'')) ''c1''
     = Some (Some ''20160102102010'')
   \<and> changelogDateOf
        (createEntities snapshotEnv
          ((exampleArgs authorBook ''sql'')
             \<lparr>arg_parsedData :=
                parsedDataAfter (createEntities exampleEnv (exampleArgs authorBook ''sql''))\<rparr>))
        ''c1''
     = Some (Some ''20160102102010'')"
proof -
  let ?a = "exampleArgs authorBook ''sql''"
  let ?r1 = "createEntities exampleEnv ?a"
  let ?r2 = "createEntities snapshotEnv (?a\<lparr>arg_parsedData := Some (parsedDataOf (snd (projr ?r1)))\<rparr>)"
  have d1: "changelogDateOf ?r1 ''c1'' = Some (Some ''20160102102010'')" by code_simp
  from changelogDateOf_Some[OF d1] obtain e1 where
    e1: "map_of (fst (projr ?r1)) ''c1'' = Some e1" "changelogDate e1 = Some ''20160102102010''"
    and r1: "\<not> isl ?r1" by blast
  have p: "parsedDataAfter ?r1 = Some (parsedDataOf (snd (projr ?r1)))"
    using r1 by (cases ?r1) (auto simp: parsedDataAfter_def)
  have "changelogDateOf ?r2 ''c1'' \<noteq> None" by code_simp
  then obtain d2 where d2: "changelogDateOf ?r2 ''c1'' = Some d2" by auto
  from changelogDateOf_Some[OF d2] obtain e2 where
    e2: "map_of (fst (projr ?r2)) ''c1'' = Some e2" "changelogDate e2 = d2"
    and r2: "\<not> isl ?r2" by blast
  have c: "getClass authorBook ''c1'' = Some (exampleClass ''Author'')" by code_simp
  have f: "files snapshotEnv (snapshotFile (exampleClass ''Author''))
           = Some ''{changelogDate: 20160102102010}''" by code_simp
  have j: "JSON_parse snapshotEnv ''{changelogDate: 20160102102010}''
           = Some (Truthy (changelogDate e1))"
    unfolding e1(2) by code_simp
  have "changelogDate e2 = changelogDate e1"
    by (rule snapshot_changelogDate_kept[OF returned[OF r1] _ c e1(1) f j returned[OF r2] e2(1)])
      simp
  with d1 d2 e1(2) e2(2) p show ?thesis by simp
qed

text \<open>
  Claim C5, as amended. A class at the 0-based position \<open>i\<close> that has no snapshot file and
  whose identifier is not a property name of \<^verbatim>\<open>Object.prototype\<close>, in a model without a
  class identifier \<^verbatim>\<open>__proto__\<close>, gets, from a clock reading \<open>t\<close> in range whose minute is at
  least 10, the 14 digits of \<open>t\<close> with the seconds replaced by \<open>(seconds + i) mod 60\<close>: the sum
  is reduced modulo 60 and never carried into the minute. This is \<open>t + i\<close> seconds, as the
  specification formats them, if and only if \<open>seconds + i < 60\<close>.
\<close>

theorem changelogDate_of_new_entity:
  assumes "createEntities env a = Inr (ents, g)" and "arg_parsedData a = Some pd"
    and "distinct (map fst (classes pd))" and "i < length (classes pd)"
    and "classes pd ! i = (classId, c)" and "files env (snapshotFile c) = None"
    and "classId \<notin> set objectPrototype" and "''__proto__'' \<notin> set (map fst (classes pd))"
    and "map_of ents classId = Some e"
    and "wellFormedTime (clock env i)" and "10 \<le> getMinutes (clock env i)"
  shows "\<exists>s. changelogDate e = Some s
           \<and> s = formatYMDHMS ((clock env i)\<lparr>getSeconds := (getSeconds (clock env i) + i) mod 60\<rparr>)
           \<and> length s = 14 \<and> set s \<subseteq> set ''0123456789''
           \<and> (s = spec_changelogDate (clock env i) i \<longleftrightarrow> getSeconds (clock env i) + i < 60)"
proof -
  let ?t = "clock env i"
  let ?t' = "?t\<lparr>getSeconds := (getSeconds ?t + i) mod 60\<rparr>"
  have d: "changelogDate e = Some (formatYMDHMS ?t')"
    using createEntities_fresh_date[OF assms(1-6,9,7)]
      dateFormatForLiquibase_format[OF assms(10,11)]
    by simp
  have "wellFormedTime ?t'" using assms(10) by (simp add: wellFormedTime_def)
  note f = formatYMDHMS_14[OF this]
  have "formatYMDHMS ?t' = spec_changelogDate ?t i" if "getSeconds ?t + i < 60"
    using that by (simp add: spec_changelogDate_def addSeconds_no_carry)
  moreover have "formatYMDHMS ?t' \<noteq> spec_changelogDate ?t i" if "\<not> getSeconds ?t + i < 60"
    using that spec_changelogDate_carry[OF assms(10), of i] by (simp add: eq_commute)
  ultimately have "formatYMDHMS ?t' = spec_changelogDate ?t i \<longleftrightarrow> getSeconds ?t + i < 60"
    by blast
  with d f show ?thesis by simp
qed

theorem changelogDate_of_new_entity_witness:
  "changelogDateOf (createEntities exampleEnv (exampleArgs authorBook ''sql'')) ''c2''
     = Some (Some ''20160102102011'')
   \<and> spec_changelogDate exampleNow 1 = ''20160102102011''"
proof -
  let ?r = "createEntities exampleEnv (exampleArgs authorBook ''sql'')"
  have "changelogDateOf ?r ''c2'' \<noteq> None" by code_simp
  then obtain d where d: "changelogDateOf ?r ''c2'' = Some d" by auto
  from changelogDateOf_Some[OF d] obtain e where
    e: "map_of (fst (projr ?r)) ''c2'' = Some e" "changelogDate e = d" and r: "\<not> isl ?r"
    by blast
  have h: "distinct (map fst (classes authorBook))" "1 < length (classes authorBook)"
    "classes authorBook ! 1 = (''c2'', exampleClass ''Book'')"
    "files exampleEnv (snapshotFile (exampleClass ''Book'')) = None"
    "''c2'' \<notin> set objectPrototype" "''__proto__'' \<notin> set (map fst (classes authorBook))"
    "wellFormedTime (clock exampleEnv 1)" "10 \<le> getMinutes (clock exampleEnv 1)"
    "getSeconds (clock exampleEnv 1) + 1 < 60" "clock exampleEnv 1 = exampleNow"
    by code_simp+
  from changelogDate_of_new_entity[OF returned[OF r] _ h(1,2,3,4,5,6) e(1) h(7,8)] h(9,10) e(2)
  have "d = Some (spec_changelogDate exampleNow 1)" by auto
  moreover have "spec_changelogDate exampleNow 1 = ''20160102102011''" by code_simp
  ultimately show ?thesis using d by simp
qed

text \<open>
  The claim as it stands fails at second 59: the class at position 1 gets the second
  \<open>00\<close> of the same minute, where one second later is the next minute.
\<close>

theorem changelogDate_no_carry_counterexample:
  "changelogDateOf (createEntities lateEnv (exampleArgs authorBook ''sql'')) ''c2''
     = Some (Some ''20160102102000'')
   \<and> spec_changelogDate lateNow 1 = ''20160102102100''"
  by code_simp

text \<open>
  Claim C6, as amended. Two classes without snapshot files, at the positions \<open>i < j\<close>, whose
  identifiers are not property names of \<^verbatim>\<open>Object.prototype\<close>, in a model without a class
  identifier \<^verbatim>\<open>__proto__\<close>, get their changelog dates from the same clock reading. The two
  dates are equal if and only if \<open>j - i\<close> is a multiple of 60, so the dates of any 60
  consecutive positions are pairwise distinct. The date at \<open>i\<close> is smaller than the date at
  \<open>j\<close> if and only if \<open>(seconds + i) mod 60 < (seconds + j) mod 60\<close>, so the dates increase
  with the position as long as the seconds of the reading plus the position stay below 60.
  The dates are compared as strings, which for digits of equal length is the order of the
  numbers.
\<close>

theorem changelogDates_distinct_increasing:
  assumes "createEntities env a = Inr (ents, g)" and "arg_parsedData a = Some pd"
    and "distinct (map fst (classes pd))" and "i < j" and "j < length (classes pd)"
    and "classes pd ! i = (ci, c1)" and "classes pd ! j = (cj, c2)"
    and "files env (snapshotFile c1) = None" and "files env (snapshotFile c2) = None"
    and "ci \<notin> set objectPrototype" and "cj \<notin> set objectPrototype"
    and "''__proto__'' \<notin> set (map fst (classes pd))"
    and "map_of ents ci = Some ei" and "map_of ents cj = Some ej"
    and "clock env i = clock env j"
  shows "\<exists>di dj. changelogDate ei = Some di \<and> changelogDate ej = Some dj
           \<and> (di = dj \<longleftrightarrow> (j - i) mod 60 = 0)
           \<and> (di < dj \<longleftrightarrow> (getSeconds (clock env j) + i) mod 60
                                  < (getSeconds (clock env j) + j) mod 60)
           \<and> (j < i + 60 \<longrightarrow> di \<noteq> dj)
           \<and> (getSeconds (clock env j) + j < 60 \<longrightarrow> di < dj)"
proof -
  let ?s = "getSeconds (clock env j)"
  let ?di = "dateFormatForLiquibase (clock env j) i"
  let ?dj = "dateFormatForLiquibase (clock env j) j"
  have i: "i < length (classes pd)" using assms(4,5) by simp
  have di: "changelogDate ei = Some ?di"
    using createEntities_fresh_date[OF assms(1,2,3) i assms(6,8,13,10)] assms(15) by simp
  have dj: "changelogDate ej = Some ?dj"
    using createEntities_fresh_date[OF assms(1,2,3,5,7,9,14,11)] by simp
  have e: "?di = ?dj \<longleftrightarrow> (j - i) mod 60 = 0"
    unfolding dateFormatForLiquibase_eq_iff by (rule same_second_iff[OF assms(4)])
  have l: "?di < ?dj \<longleftrightarrow> (?s + i) mod 60 < (?s + j) mod 60"
    by (rule dateFormatForLiquibase_less_iff)
  have n: "?di \<noteq> ?dj" if "j < i + 60"
    using that assms(4) unfolding e by simp
  have m: "?di < ?dj" if "?s + j < 60"
    using that assms(4) unfolding l by simp
  from di dj e l n m show ?thesis by simp
qed

theorem changelogDates_distinct_increasing_witness:
  "changelogDateOf (createEntities exampleEnv (exampleArgs authorBook ''sql'')) ''c1''
     = Some (Some ''20160102102010'')
   \<and> changelogDateOf (createEntities exampleEnv (exampleArgs authorBook ''sql'')) ''c2''
     = Some (Some ''20160102102011'')
   \<and> ''20160102102010'' \<noteq> ''20160102102011'' \<and> ''20160102102010'' < ''20160102102011''"
proof -
  let ?r = "createEntities exampleEnv (exampleArgs authorBook ''sql'')"
  have d1: "changelogDateOf ?r ''c1'' = Some (Some ''20160102102010'')"
    and d2: "changelogDateOf ?r ''c2'' = Some (Some ''20160102102011'')" by code_simp+
  from changelogDateOf_Some[OF d1] obtain e1 where
    e1: "map_of (fst (projr ?r)) ''c1'' = Some e1" "changelogDate e1 = Some ''20160102102010''"
    and r: "\<not> isl ?r" by blast
  from changelogDateOf_Some[OF d2] obtain e2 where
    e2: "map_of (fst (projr ?r)) ''c2'' = Some e2" "changelogDate e2 = Some ''20160102102011''"
    by blast
  have h: "distinct (map fst (classes authorBook))" "(0::nat) < 1" "1 < length (classes authorBook)"
    "classes authorBook ! 0 = (''c1'', exampleClass ''Author'')"
    "classes authorBook ! 1 = (''c2'', exampleClass ''Book'')"
    "files exampleEnv (snapshotFile (exampleClass ''Author'')) = None"
    "files exampleEnv (snapshotFile (exampleClass ''Book'')) = None"
    "''c1'' \<notin> set objectPrototype" "''c2'' \<notin> set objectPrototype"
    "''__proto__'' \<notin> set (map fst (classes authorBook))"
    "clock exampleEnv 0 = clock exampleEnv 1"
    by code_simp+
  have s: "(1::nat) < 0 + 60" "getSeconds (clock exampleEnv 1) + 1 < 60" by code_simp+
  from changelogDates_distinct_increasing
         [OF returned[OF r] _ h(1,2,3,4,5,6,7,8,9,10) e1(1) e2(1) h(11)] e1(2) e2(2) s
  have "''20160102102010'' \<noteq> ''20160102102011'' \<and> ''20160102102010'' < ''20160102102011''"
    by auto
  with d1 d2 show ?thesis by simp
qed

text \<open>
  The claim as it stands fails in both parts. At second 59 the second class gets a date
  that is smaller than the date of the first. And of 61 classes, at second 10, the last one
  gets the date of the first.
\<close>

theorem changelogDates_wrap_counterexample:
  "changelogDateOf (createEntities lateEnv (exampleArgs authorBook ''sql'')) ''c1''
     = Some (Some ''20160102102059'')
   \<and> changelogDateOf (createEntities lateEnv (exampleArgs authorBook ''sql'')) ''c2''
     = Some (Some ''20160102102000'')
   \<and> ''20160102102000'' < ''20160102102059''
   \<and> changelogDateOf (createEntities exampleEnv (exampleArgs (crowd 61) ''sql'')) ''c0''
     = Some (Some ''20160102102010'')
   \<and> changelogDateOf (createEntities exampleEnv (exampleArgs (crowd 61) ''sql'')) ''c60''
     = Some (Some ''20160102102010'')"
proof -
  have w: "changelogDateOf (createEntities lateEnv (exampleArgs authorBook ''sql'')) ''c1''
       = Some (Some ''20160102102059'')
     \<and> changelogDateOf (createEntities lateEnv (exampleArgs authorBook ''sql'')) ''c2''
       = Some (Some ''20160102102000'')
     \<and> ''20160102102000'' < ''20160102102059''"
    by code_simp
  have n: "CHR ''c'' # numberToString 0 = ''c0''" "CHR ''c'' # numberToString 60 = ''c60''"
    by code_simp+
  have f: "\<forall>f. files exampleEnv f = None" by (simp add: exampleEnv_def)
  have o: "''c0'' \<notin> set objectPrototype" "''c60'' \<notin> set objectPrototype" by code_simp+
  have d: "dateFormatForLiquibase (clock exampleEnv 0) 0 = ''20160102102010''"
    "dateFormatForLiquibase (clock exampleEnv 60) 60 = ''20160102102010''" by code_simp+
  have l: "length (classes (crowd 61)) = 61" by (simp add: crowd_def exampleModel_def)
  have "changelogDateOf (createEntities exampleEnv (exampleArgs (crowd 61) ''sql'')) ''c0''
        = Some (Some (dateFormatForLiquibase (clock exampleEnv 0) 0))"
    using crowd_nth[of 0 61] crowd_isUser[of 0 61] o(1) l unfolding n
    by (intro createEntities_plain[OF _ _ crowd_plain f crowd_distinct]) simp_all
  moreover have "changelogDateOf (createEntities exampleEnv (exampleArgs (crowd 61) ''sql'')) ''c60''
        = Some (Some (dateFormatForLiquibase (clock exampleEnv 60) 60))"
    using crowd_nth[of 60 61] crowd_isUser[of 60 61] o(2) l unfolding n
    by (intro createEntities_plain[OF _ _ crowd_plain f crowd_distinct]) simp_all
  ultimately show ?thesis using w by (simp add: d)
qed

section \<open>The entities named User\<close>

text \<open>
  Claim C9. When \<^verbatim>\<open>createEntities\<close> returns, the callback of \<^verbatim>\<open>fillEntities\<close> has run for
  every class, from the state \<open>g3\<close> that \<^verbatim>\<open>initializeEntities\<close> built to a state \<open>g'\<close>; the
  map returned has no entity for a class whose name is \<^verbatim>\<open>user\<close> in lower case, and for
  every other identifier it holds what \<open>g'\<close> holds, relationships included.
\<close>

theorem user_entities_suppressed:
  assumes "createEntities env a = Inr (ents, g)" and "arg_parsedData a = Some pd"
  shows "\<exists>dt g2 g3 g'.
           arg_databaseTypes a = Some dt
           \<and> readJSONFiles env (init (merge a) pd dt) = Inr g2
           \<and> initializeEntities env g2 = Inr g3
           \<and> forEach (fillEntities_step env) (map fst (classes pd)) g3 = Inr g'
           \<and> (\<forall>classId. isUser pd classId \<longrightarrow> map_of ents classId = None)
           \<and> (\<forall>classId. \<not> isUser pd classId
                 \<longrightarrow> map_of ents classId = map_of (entities g') classId)"
proof (rule createEntities_stages[OF assms])
  fix dt g2 g3 g'
  assume dt: "arg_databaseTypes a = Some dt"
    and r: "readJSONFiles_loop env (map fst (classes pd)) (init (merge a) pd dt) = Inr g2"
    and i: "initializeEntities_loop env (map fst (classes pd)) 0 g2 = Inr g3"
    and f: "forEach (fillEntities_step env) (map fst (classes pd)) g3 = Inr g'"
    and g: "g = suppressEntities g'" and e: "ents = entities g"
    and p3: "parsedDataOf g3 = pd" and s3: "entitiesToSuppress g3 = []"
  have r': "readJSONFiles env (init (merge a) pd dt) = Inr g2"
    using r by (simp add: readJSONFiles_def)
  have "parsedDataOf g2 = pd" by (subst readJSONFiles_loop_frame[OF r]) simp
  then have i': "initializeEntities env g2 = Inr g3"
    using i by (simp add: initializeEntities_def)
  have s: "entitiesToSuppress g' = filter (isUser pd) (map fst (classes pd))"
    using frame_fillEntities_loop[OF f] p3 s3 by (simp add: frame_def)
  have l: "map_of ents classId
           = (if classId \<in> set (entitiesToSuppress g') then None
              else map_of (entities g') classId)" for classId
    unfolding e g by (rule suppressEntities_lookup)
  have u: "map_of ents classId = None" if "isUser pd classId" for classId
  proof -
    from that obtain c where "getClass pd classId = Some c"
      by (auto simp: isUser_def split: option.splits)
    from getClass_keys[OF this] that show ?thesis by (simp add: l s)
  qed
  have n: "map_of ents classId = map_of (entities g') classId" if "\<not> isUser pd classId"
    for classId
    using that by (simp add: l s)
  from dt r' i' f u n show ?thesis by blast
qed

theorem user_entities_suppressed_witness:
  "isUser authorUser ''c2'' \<and> \<not> isUser authorUser ''c1''
   \<and> relationshipsOf (createEntities exampleEnv (exampleArgs authorUser ''sql'')) ''c2'' = None
   \<and> relationshipsOf (createEntities exampleEnv (exampleArgs authorUser ''sql'')) ''c1''
       = Some [\<lparr>relationshipId = 1, relationshipType = MANY_TO_ONE,
                 relationshipName = Some ''user'', otherEntityName = Some ''user'',
                 otherEntityField = Some ''id'', ownerSide = None,
                 otherEntityRelationshipName = None\<rparr>]"
proof -
  let ?r = "createEntities exampleEnv (exampleArgs authorUser ''sql'')"
  have u: "isUser authorUser ''c2''" and n: "\<not> isUser authorUser ''c1''" by code_simp+
  have r: "\<not> isl ?r" by code_simp
  from user_entities_suppressed[OF returned[OF r]] u
  have "map_of (fst (projr ?r)) ''c2'' = None" by auto
  then have "relationshipsOf ?r ''c2'' = None"
    using r by (cases ?r) (auto simp: relationshipsOf_def)
  moreover have "relationshipsOf ?r ''c1''
       = Some [\<lparr>relationshipId = 1, relationshipType = MANY_TO_ONE,
                 relationshipName = Some ''user'', otherEntityName = Some ''user'',
                 otherEntityField = Some ''id'', ownerSide = None,
                 otherEntityRelationshipName = None\<rparr>]"
    by code_simp
  ultimately show ?thesis using u n by simp
qed

section \<open>Counting the relationship records\<close>

lemma map_entry_distinct:
  "distinct (map fst al)
   \<Longrightarrow> AList.map_entry k f al = map (\<lambda>p. (fst p, if fst p = k then f (snd p) else snd p)) al"
proof (induction al)
  case Nil
  then show ?case by simp
next
  case (Cons p al)
  show ?case
  proof (cases "fst p = k")
    case True
    then have "k \<notin> fst ` set al" using Cons.prems by auto
    then have "map (\<lambda>p. (fst p, if fst p = k then f (snd p) else snd p)) al = al"
      by (intro map_idI) auto
    with True show ?thesis by (cases p) simp
  next
    case False
    with Cons show ?thesis by (cases p) simp
  qed
qed

lemma map_entry_id:
  "map_of al k = Some x \<Longrightarrow> f x = x \<Longrightarrow> AList.map_entry k f al = al"
  by (induction al) (auto split: if_splits)

lemma map_of_distinct_mem:
  "distinct (map fst al) \<Longrightarrow> (k, x) \<in> set al \<Longrightarrow> map_of al k = Some x"
  by simp

lemma synthesizes_normalize [simp]: "\<not> synthesizes (normalize x)"
  by (simp add: normalize_def synthesizes_def)

lemma normalize_idem [simp]: "normalize (normalize x) = normalize x"
  by (simp add: normalize_def synthesizes_def)

lemma normalize_fields [simp]:
  "assoc_from (normalize x) = assoc_from x" "assoc_to (normalize x) = assoc_to x"
  "injectedFieldInTo (normalize x) = injectedFieldInTo x"
  "injectedFieldInFrom (normalize x) = injectedFieldInFrom x"
  by (simp_all add: normalize_def)

lemma normalize_id: "\<not> synthesizes x \<Longrightarrow> normalize x = x"
  by (simp add: normalize_def)

lemma relCount_pushRelationship:
  "relCount (pushRelationship c r g) k
   = relCount g k + (if k = c \<and> map_of (entities g) c \<noteq> None then 1 else 0)"
  by (auto simp: relCount_def pushRelationship_def map_of_map_entry split: option.splits)

lemma relCount_updateAssociation [simp]: "relCount (updateAssociation x f g) = relCount g"
  by (simp add: relCount_def updateAssociation_def fun_eq_iff)

lemma entities_updateAssociation [simp]: "entities (updateAssociation x f g) = entities g"
  by (simp add: updateAssociation_def)

lemma associations_updateAssociation [simp]:
  "associations (parsedDataOf (updateAssociation x f g))
   = AList.map_entry x f (associations (parsedDataOf g))"
  by (simp add: updateAssociation_def)

lemma parsedDataOf_pushRelationship [simp]:
  "parsedDataOf (pushRelationship c r g) = parsedDataOf g"
  by (simp add: pushRelationship_def)

lemma map_of_entities_push:
  "map_of (entities (pushRelationship c r g)) k
   = (if k = c then map_option (\<lambda>e. e\<lparr>relationships := relationships e @ [r]\<rparr>) (map_of (entities g) c)
      else map_of (entities g) k)"
  by (auto simp: pushRelationship_def map_of_map_entry split: option.splits)

lemma pending_map_entry:
  "map_of al aid = Some x \<Longrightarrow> synthesizes x
   \<Longrightarrow> pending (AList.map_entry aid (\<lambda>a. a\<lparr>assoc_type := MANY_TO_ONE\<rparr>) al) k
        + (if assoc_to x = k then 1 else 0) = pending al k"
  by (induction al) (auto simp: pending_def synthesizes_def split: if_splits)

lemma fromStep_cases:
  assumes "fromStep env c aid g = Inr g'"
  obtains x fromClass toClass entity where
    "getAssociation (parsedDataOf g) aid = Some x"
    "getClass (parsedDataOf g) (assoc_from x) = Some fromClass"
    "getClass (parsedDataOf g) (assoc_to x) = Some toClass"
    "checkValidityOfAssociation env x (class_name fromClass) (class_name toClass)"
    "map_of (entities g) c = Some entity"
    "\<not> synthesizes x"
    "g' = pushRelationship c
            (fromRelationship env x (class_name fromClass) (class_name toClass)
               (length (relationships entity) + 1)) g"
  | x fromClass toClass entity toEntity where
    "getAssociation (parsedDataOf g) aid = Some x"
    "getClass (parsedDataOf g) (assoc_from x) = Some fromClass"
    "getClass (parsedDataOf g) (assoc_to x) = Some toClass"
    "checkValidityOfAssociation env x (class_name fromClass) (class_name toClass)"
    "map_of (entities g) c = Some entity"
    "synthesizes x"
    "map_of (entities g) (assoc_to x) = Some toEntity"
    "g' = pushRelationship c
            (fromRelationship env x (class_name fromClass) (class_name toClass)
               (length (relationships entity) + 1))
            (pushRelationship (assoc_to x)
               (otherSideRelationship env x (class_name fromClass)
                  (length (relationships toEntity) + 1))
               (updateAssociation aid (\<lambda>a. a\<lparr>assoc_type := MANY_TO_ONE\<rparr>) g))"
proof -
  from assms obtain x where x: "getAssociation (parsedDataOf g) aid = Some x"
    by (auto simp: fromStep_def split: option.splits)
  from assms x obtain fromClass where f: "getClass (parsedDataOf g) (assoc_from x) = Some fromClass"
    by (auto simp: fromStep_def split: option.splits)
  from assms x f obtain toClass where t: "getClass (parsedDataOf g) (assoc_to x) = Some toClass"
    by (auto simp: fromStep_def split: option.splits)
  from assms x f t have v: "checkValidityOfAssociation env x (class_name fromClass) (class_name toClass)"
    by (auto simp: fromStep_def split: if_splits)
  from assms x f t v obtain entity where e: "map_of (entities g) c = Some entity"
    by (auto simp: fromStep_def split: option.splits)
  show ?thesis
  proof (cases "synthesizes x")
    case False
    then have "g' = pushRelationship c
            (fromRelationship env x (class_name fromClass) (class_name toClass)
               (length (relationships entity) + 1)) g"
      using assms x f t v e by (auto simp: fromStep_def Let_def synthesizes_def)
    with x f t v e False show ?thesis by (rule that(1))
  next
    case True
    then obtain toEntity where te: "map_of (entities g) (assoc_to x) = Some toEntity"
      using assms x f t v e by (auto simp: fromStep_def Let_def synthesizes_def split: option.splits)
    then have "g' = pushRelationship c
            (fromRelationship env x (class_name fromClass) (class_name toClass)
               (length (relationships entity) + 1))
            (pushRelationship (assoc_to x)
               (otherSideRelationship env x (class_name fromClass)
                  (length (relationships toEntity) + 1))
               (updateAssociation aid (\<lambda>a. a\<lparr>assoc_type := MANY_TO_ONE\<rparr>) g))"
      using assms x f t v e True by (auto simp: fromStep_def Let_def synthesizes_def)
    with x f t v e True te show ?thesis by (rule that(2))
  qed
qed

lemma fromStep_associations:
  assumes "fromStep env c aid g = Inr g'"
    and "distinct (map fst (associations (parsedDataOf g)))"
  shows "associations (parsedDataOf g')
         = map (\<lambda>p. (fst p, if fst p = aid then normalize (snd p) else snd p))
             (associations (parsedDataOf g))"
proof (rule fromStep_cases[OF assms(1)])
  fix x and fromClass toClass :: class_model and entity :: entity
  assume x: "getAssociation (parsedDataOf g) aid = Some x" and n: "\<not> synthesizes x"
    and g': "g' = pushRelationship c
            (fromRelationship env x (class_name fromClass) (class_name toClass)
               (length (relationships entity) + 1)) g"
  have "(if fst p = aid then normalize (snd p) else snd p) = snd p"
    if "p \<in> set (associations (parsedDataOf g))" for p
    using that x n map_of_distinct_mem[OF assms(2), of "fst p" "snd p"]
    by (auto simp: getAssociation_def normalize_id)
  then have "map (\<lambda>p. (fst p, if fst p = aid then normalize (snd p) else snd p))
               (associations (parsedDataOf g)) = associations (parsedDataOf g)"
    by (intro map_idI) simp
  with g' show ?thesis by simp
next
  fix x and fromClass toClass :: class_model and entity toEntity :: entity
  assume x: "getAssociation (parsedDataOf g) aid = Some x" and s: "synthesizes x"
    and g': "g' = pushRelationship c
            (fromRelationship env x (class_name fromClass) (class_name toClass)
               (length (relationships entity) + 1))
            (pushRelationship (assoc_to x)
               (otherSideRelationship env x (class_name fromClass)
                  (length (relationships toEntity) + 1))
               (updateAssociation aid (\<lambda>a. a\<lparr>assoc_type := MANY_TO_ONE\<rparr>) g))"
  have "(if fst p = aid then (snd p)\<lparr>assoc_type := MANY_TO_ONE\<rparr> else snd p)
        = (if fst p = aid then normalize (snd p) else snd p)"
    if "p \<in> set (associations (parsedDataOf g))" for p
    using that x s map_of_distinct_mem[OF assms(2), of "fst p" "snd p"]
    by (auto simp: getAssociation_def normalize_def)
  then show ?thesis
    unfolding g' by (simp add: map_entry_distinct[OF assms(2)])
qed

lemma fromStep_count:
  assumes "fromStep env c aid g = Inr g'"
  shows "relCount g' k + pending (associations (parsedDataOf g')) k
         = relCount g k + pending (associations (parsedDataOf g)) k + (if k = c then 1 else 0)"
proof (rule fromStep_cases[OF assms(1)])
  fix x and fromClass toClass :: class_model and entity :: entity
  assume e: "map_of (entities g) c = Some entity"
    and g': "g' = pushRelationship c
            (fromRelationship env x (class_name fromClass) (class_name toClass)
               (length (relationships entity) + 1)) g"
  show ?thesis unfolding g' using e by (simp add: relCount_pushRelationship)
next
  fix x and fromClass toClass :: class_model and entity toEntity :: entity
  assume x: "getAssociation (parsedDataOf g) aid = Some x" and s: "synthesizes x"
    and e: "map_of (entities g) c = Some entity"
    and te: "map_of (entities g) (assoc_to x) = Some toEntity"
    and g': "g' = pushRelationship c
            (fromRelationship env x (class_name fromClass) (class_name toClass)
               (length (relationships entity) + 1))
            (pushRelationship (assoc_to x)
               (otherSideRelationship env x (class_name fromClass)
                  (length (relationships toEntity) + 1))
               (updateAssociation aid (\<lambda>a. a\<lparr>assoc_type := MANY_TO_ONE\<rparr>) g))"
  have p: "pending (AList.map_entry aid (\<lambda>a. a\<lparr>assoc_type := MANY_TO_ONE\<rparr>)
                     (associations (parsedDataOf g))) k
           + (if assoc_to x = k then 1 else 0) = pending (associations (parsedDataOf g)) k"
    using x s by (intro pending_map_entry) (simp_all add: getAssociation_def)
  show ?thesis unfolding g' using e te p
    by (auto simp: relCount_pushRelationship map_of_entities_push split: if_splits)
qed

lemma assign_truthy:
  "truthy (injectedFieldInTo x)
   \<Longrightarrow> x\<lparr>injectedFieldInTo := Some (orElse (injectedFieldInTo x) d)\<rparr> = x"
  by (cases "injectedFieldInTo x") (auto simp: orElse_def)

lemma updateAssociation_id:
  "getAssociation (parsedDataOf g) aid = Some x \<Longrightarrow> f x = x \<Longrightarrow> updateAssociation aid f g = g"
  by (simp add: updateAssociation_def getAssociation_def map_entry_id)

lemma toStep_truthy:
  assumes "toStep env c aid g = Inr g'"
    and "getAssociation (parsedDataOf g) aid = Some x" and "truthy (injectedFieldInTo x)"
  shows "\<exists>fromClass entity.
           getClass (parsedDataOf g) (assoc_from x) = Some fromClass
           \<and> map_of (entities g) c = Some entity
           \<and> g' = pushRelationship c
                    (toRelationship env x (class_name fromClass)
                       (length (relationships entity) + 1)) g"
proof -
  from assms obtain entity where e: "map_of (entities g) c = Some entity"
    by (auto simp: toStep_def split: option.splits)
  from assms e obtain fromClass where
    f: "getClass (parsedDataOf g) (assoc_from x) = Some fromClass"
    by (auto simp: toStep_def Let_def split: option.splits)
  let ?assign = "\<lambda>a. a\<lparr>injectedFieldInTo :=
                       Some (orElse (injectedFieldInTo a) (lowerFirst env (assoc_from a)))\<rparr>"
  have a: "?assign x = x" using assms(3) by (rule assign_truthy)
  have u: "updateAssociation aid ?assign g = g"
    using assms(2) a by (rule updateAssociation_id)
  have "g' = pushRelationship c
               (toRelationship env x (class_name fromClass) (length (relationships entity) + 1)) g"
    using assms e f by (simp add: toStep_def Let_def a u split: if_splits)
  with e f show ?thesis by blast
qed

lemma toStep_count:
  assumes "toStep env c aid g = Inr g'"
    and "getAssociation (parsedDataOf g) aid = Some x" and "truthy (injectedFieldInTo x)"
  shows "parsedDataOf g' = parsedDataOf g"
    and "relCount g' k = relCount g k + (if k = c then 1 else 0)"
  using toStep_truthy[OF assms] by (auto simp: relCount_pushRelationship)

lemma getRelatedAssociations_filter:
  assumes "distinct (map fst al)" and "set ps \<subseteq> set al"
  shows "getRelatedAssociations c (map fst ps) al (fs, ts)
         = Some (fs @ map fst (filter (\<lambda>p. assoc_from (snd p) = c) ps),
                 ts @ map fst (filter (\<lambda>p. assoc_to (snd p) = c
                                           \<and> truthy (injectedFieldInTo (snd p))) ps))"
  using assms(2)
proof (induction ps arbitrary: fs ts)
  case Nil
  then show ?case by simp
next
  case (Cons p ps)
  then have "p \<in> set al" by simp
  then have "map_of al (fst p) = Some (snd p)"
    using assms(1) by simp
  moreover have "set ps \<subseteq> set al" using Cons.prems by simp
  ultimately show ?case using Cons.IH by (simp add: Let_def)
qed

lemma getRelatedAssociations_all:
  "distinct (map fst al)
   \<Longrightarrow> getRelatedAssociations c (map fst al) al ([], [])
       = Some (map fst (filter (\<lambda>p. assoc_from (snd p) = c) al),
               map fst (filter (\<lambda>p. assoc_to (snd p) = c
                                         \<and> truthy (injectedFieldInTo (snd p))) al))"
  using getRelatedAssociations_filter[of al al c "[]" "[]"] by simp

lemma forEach_prefix_inv:
  assumes "forEach f xs g = Inr g'" and "I [] g"
    and "\<And>ys x zs a b. xs = ys @ x # zs \<Longrightarrow> I ys a \<Longrightarrow> f x a = Inr b \<Longrightarrow> I (ys @ [x]) b"
  shows "I xs g'"
proof -
  have "I (ps @ xs') g'" if "forEach f xs' a = Inr g'" "I ps a" "xs = ps @ xs'" for ps xs' a
    using that
  proof (induction xs' arbitrary: ps a)
    case Nil
    then show ?case by simp
  next
    case (Cons x xs')
    obtain b where s: "f x a = Inr b" and r: "forEach f xs' b = Inr g'"
      using Cons.prems(1) by (auto split: sum.splits)
    have "I (ps @ [x]) b" using assms(3)[of ps x xs' a b] Cons.prems s by simp
    from Cons.IH[OF r this] Cons.prems(3) show ?case by simp
  qed
  from this[of xs g "[]"] assms show ?thesis by simp
qed

lemma map_fst_resolved [simp]: "map fst (resolved Q A) = map fst A"
  by (simp add: resolved_def comp_def)

lemma resolved_froms [simp]:
  "map fst (filter (\<lambda>p. assoc_from (snd p) = c) (resolved Q A))
   = map fst (filter (\<lambda>p. assoc_from (snd p) = c) A)"
  by (induction A) (auto simp: resolved_def)

lemma resolved_tos [simp]:
  "map fst (filter (\<lambda>p. assoc_to (snd p) = c \<and> truthy (injectedFieldInTo (snd p))) (resolved Q A))
   = map fst (filter (\<lambda>p. assoc_to (snd p) = c \<and> truthy (injectedFieldInTo (snd p))) A)"
  by (induction A) (auto simp: resolved_def)

lemma resolved_step:
  "map (\<lambda>p. (fst p, if fst p = aid then normalize (snd p) else snd p)) (resolved Q A)
   = resolved (\<lambda>i x. Q i x \<or> i = aid) A"
  by (simp add: resolved_def comp_def)

lemma resolved_cong:
  "(\<And>p. p \<in> set A \<Longrightarrow> Q (fst p) (snd p) = R (fst p) (snd p)) \<Longrightarrow> resolved Q A = resolved R A"
  by (simp add: resolved_def)

lemma map_of_resolved:
  "map_of (resolved Q A) i = map_option (\<lambda>x. if Q i x then normalize x else x) (map_of A i)"
  by (induction A) (auto simp: resolved_def)

lemma potential_pushRelationship:
  "potential (pushRelationship c r g) k
   = potential g k + (if k = c \<and> map_of (entities g) c \<noteq> None then 1 else 0)"
  by (simp add: potential_def relCount_pushRelationship)

lemma fromLoop_count:
  assumes "forEach (fromStep env D) xs g = Inr g'"
    and "associations (parsedDataOf g) = resolved Q A" and "distinct (map fst A)"
  shows "associations (parsedDataOf g') = resolved (\<lambda>i x. Q i x \<or> i \<in> set xs) A
         \<and> (\<forall>k. potential g' k = potential g k + (if k = D then length xs else 0))"
proof (rule forEach_prefix_inv[OF assms(1),
      where I = "\<lambda>ys a. associations (parsedDataOf a) = resolved (\<lambda>i x. Q i x \<or> i \<in> set ys) A
         \<and> (\<forall>k. potential a k = potential g k + (if k = D then length ys else 0))"])
  show "associations (parsedDataOf g) = resolved (\<lambda>i x. Q i x \<or> i \<in> set []) A
        \<and> (\<forall>k. potential g k = potential g k + (if k = D then length [] else 0))"
    using assms(2) by simp
next
  fix ys x zs a b
  assume i: "associations (parsedDataOf a) = resolved (\<lambda>i x. Q i x \<or> i \<in> set ys) A
         \<and> (\<forall>k. potential a k = potential g k + (if k = D then length ys else 0))"
    and s: "fromStep env D x a = Inr b"
  have d: "distinct (map fst (associations (parsedDataOf a)))" using i assms(3) by simp
  have "associations (parsedDataOf b) = resolved (\<lambda>i y. (Q i y \<or> i \<in> set ys) \<or> i = x) A"
    using fromStep_associations[OF s d] i by (simp add: resolved_step)
  also have "\<dots> = resolved (\<lambda>i y. Q i y \<or> i \<in> set (ys @ [x])) A"
    by (rule resolved_cong) auto
  finally have "associations (parsedDataOf b) = resolved (\<lambda>i y. Q i y \<or> i \<in> set (ys @ [x])) A" .
  moreover have "potential b k = potential g k + (if k = D then length (ys @ [x]) else 0)" for k
  proof -
    have "potential a k = potential g k + (if k = D then length ys else 0)" using i by blast
    moreover have "potential b k = potential a k + (if k = D then 1 else 0)"
      unfolding potential_def by (rule fromStep_count[OF s])
    ultimately show ?thesis by simp
  qed
  ultimately show "associations (parsedDataOf b) = resolved (\<lambda>i y. Q i y \<or> i \<in> set (ys @ [x])) A
         \<and> (\<forall>k. potential b k = potential g k + (if k = D then length (ys @ [x]) else 0))"
    by blast
qed

lemma toLoop_count:
  assumes "forEach (toStep env D) xs g = Inr g'"
    and "\<forall>x \<in> set xs. \<exists>y. getAssociation (parsedDataOf g) x = Some y \<and> truthy (injectedFieldInTo y)"
  shows "parsedDataOf g' = parsedDataOf g
         \<and> (\<forall>k. potential g' k = potential g k + (if k = D then length xs else 0))"
proof (rule forEach_prefix_inv[OF assms(1),
      where I = "\<lambda>ys a. parsedDataOf a = parsedDataOf g
         \<and> (\<forall>k. potential a k = potential g k + (if k = D then length ys else 0))"])
  show "parsedDataOf g = parsedDataOf g
        \<and> (\<forall>k. potential g k = potential g k + (if k = D then length [] else 0))"
    by simp
next
  fix ys x zs a b
  assume xs: "xs = ys @ x # zs"
    and i: "parsedDataOf a = parsedDataOf g
         \<and> (\<forall>k. potential a k = potential g k + (if k = D then length ys else 0))"
    and s: "toStep env D x a = Inr b"
  from assms(2) xs i obtain y where
    y: "getAssociation (parsedDataOf a) x = Some y" "truthy (injectedFieldInTo y)"
    by auto
  note t = toStep_count[OF s y]
  have p: "parsedDataOf b = parsedDataOf g" using t(1) i by simp
  have "potential b k = potential g k + (if k = D then length (ys @ [x]) else 0)" for k
  proof -
    have "potential b k = potential a k + (if k = D then 1 else 0)"
      using t(1) t(2)[of k] by (simp add: potential_def)
    with i show ?thesis by simp
  qed
  with p show "parsedDataOf b = parsedDataOf g
         \<and> (\<forall>k. potential b k = potential g k + (if k = D then length (ys @ [x]) else 0))"
    by blast
qed

lemma distinct_key_unique:
  "distinct (map fst A) \<Longrightarrow> p \<in> set A \<Longrightarrow> q \<in> set A \<Longrightarrow> fst q = fst p \<Longrightarrow> q = p"
  by (metis distinct_map inj_onD)

lemma setRelationshipOfEntity_count:
  assumes "setRelationshipOfEntity env D g = Inr g'"
    and "associations (parsedDataOf g) = resolved Q A" and "distinct (map fst A)"
  shows "associations (parsedDataOf g') = resolved (\<lambda>i x. Q i x \<or> assoc_from x = D) A
         \<and> (\<forall>k. potential g' k = potential g k
                + (if k = D
                   then length (filter (\<lambda>p. assoc_from (snd p) = D) A)
                        + length (filter (\<lambda>p. assoc_to (snd p) = D
                                              \<and> truthy (injectedFieldInTo (snd p))) A)
                   else 0))"
proof -
  let ?froms = "map fst (filter (\<lambda>p. assoc_from (snd p) = D) A)"
  let ?tos = "map fst (filter (\<lambda>p. assoc_to (snd p) = D \<and> truthy (injectedFieldInTo (snd p))) A)"
  have "getRelatedAssociations D (map fst (associations (parsedDataOf g)))
          (associations (parsedDataOf g)) ([], []) = Some (?froms, ?tos)"
    unfolding assms(2) using assms(3) by (subst getRelatedAssociations_all) simp_all
  with assms(1) obtain g1 where f: "forEach (fromStep env D) ?froms g = Inr g1"
    and t: "forEach (toStep env D) ?tos g1 = Inr g'"
    by (auto simp: setRelationshipOfEntity_def split: sum.splits)
  note fl = fromLoop_count[OF f assms(2,3)]
  have a1: "associations (parsedDataOf g1) = resolved (\<lambda>i x. Q i x \<or> i \<in> set ?froms) A"
    using fl by blast
  have pre: "\<forall>x \<in> set ?tos. \<exists>y. getAssociation (parsedDataOf g1) x = Some y
                                 \<and> truthy (injectedFieldInTo y)"
  proof
    fix x assume "x \<in> set ?tos"
    then obtain p where p: "p \<in> set A" "fst p = x" "truthy (injectedFieldInTo (snd p))" by auto
    then have "map_of A x = Some (snd p)" using assms(3) by auto
    then show "\<exists>y. getAssociation (parsedDataOf g1) x = Some y \<and> truthy (injectedFieldInTo y)"
      using p(3) by (simp add: getAssociation_def a1 map_of_resolved)
  qed
  note tl = toLoop_count[OF t pre]
  have "resolved (\<lambda>i x. Q i x \<or> i \<in> set ?froms) A = resolved (\<lambda>i x. Q i x \<or> assoc_from x = D) A"
  proof (rule resolved_cong)
    fix p assume p: "p \<in> set A"
    have "fst p \<in> set ?froms \<longleftrightarrow> assoc_from (snd p) = D"
    proof
      assume "fst p \<in> set ?froms"
      then obtain q where q: "q \<in> set A" "fst q = fst p" "assoc_from (snd q) = D" by auto
      with distinct_key_unique[OF assms(3) p q(1,2)] show "assoc_from (snd p) = D" by simp
    next
      assume "assoc_from (snd p) = D"
      with p show "fst p \<in> set ?froms" by auto
    qed
    then show "(Q (fst p) (snd p) \<or> fst p \<in> set ?froms)
               = (Q (fst p) (snd p) \<or> assoc_from (snd p) = D)" by simp
  qed
  with a1 tl have "associations (parsedDataOf g') = resolved (\<lambda>i x. Q i x \<or> assoc_from x = D) A"
    by simp
  moreover have "potential g' k = potential g k
                + (if k = D then length (filter (\<lambda>p. assoc_from (snd p) = D) A)
                        + length (filter (\<lambda>p. assoc_to (snd p) = D
                                              \<and> truthy (injectedFieldInTo (snd p))) A)
                   else 0)" for k
  proof -
    have "potential g1 k = potential g k + (if k = D then length ?froms else 0)" using fl by blast
    moreover have "potential g' k = potential g1 k + (if k = D then length ?tos else 0)"
      using tl by blast
    ultimately show ?thesis by simp
  qed
  ultimately show ?thesis by blast
qed

lemma setFieldsOfEntity_loop_same:
  "setFieldsOfEntity_loop env c fs g = Inr g'
   \<Longrightarrow> parsedDataOf g' = parsedDataOf g \<and> relCount g' = relCount g"
proof (induction fs arbitrary: g)
  case Nil
  then show ?case by simp
next
  case (Cons f fs)
  from Cons.prems obtain fd where
    r: "setFieldsOfEntity_loop env c fs
          (g\<lparr>entities := AList.map_entry c (\<lambda>e. e\<lparr>entity_fields := entity_fields e @ [fd]\<rparr>) (entities g)\<rparr>) = Inr g'"
    by (auto simp: Let_def split: option.splits)
  have "relCount (g\<lparr>entities := AList.map_entry c (\<lambda>e. e\<lparr>entity_fields := entity_fields e @ [fd]\<rparr>) (entities g)\<rparr>)
        = relCount g"
    by (auto simp: relCount_def fun_eq_iff map_of_map_entry split: option.splits)
  with Cons.IH[OF r] show ?case by simp
qed

lemma setFieldsOfEntity_same:
  "setFieldsOfEntity env c g = Inr g' \<Longrightarrow> parsedDataOf g' = parsedDataOf g \<and> relCount g' = relCount g"
  by (auto simp: setFieldsOfEntity_def split: option.splits dest: setFieldsOfEntity_loop_same)

lemma fillEntities_step_count:
  assumes "fillEntities_step env D g = Inr g'"
    and "associations (parsedDataOf g) = resolved Q A" and "distinct (map fst A)"
  shows "associations (parsedDataOf g') = resolved (\<lambda>i x. Q i x \<or> assoc_from x = D) A
         \<and> (\<forall>k. potential g' k = potential g k
                + (if k = D
                   then length (filter (\<lambda>p. assoc_from (snd p) = D) A)
                        + length (filter (\<lambda>p. assoc_to (snd p) = D
                                              \<and> truthy (injectedFieldInTo (snd p))) A)
                   else 0))"
proof -
  from assms(1) obtain cl where cl: "getClass (parsedDataOf g) D = Some cl"
    by (auto simp: fillEntities_step_def split: option.splits)
  define g1 where "g1 = (if toLowerCase (class_name cl) = USER
                     then g\<lparr>entitiesToSuppress := entitiesToSuppress g @ [D]\<rparr> else g)"
  from assms(1) cl obtain g2 where f: "setFieldsOfEntity env D g1 = Inr g2"
    and r: "setRelationshipOfEntity env D g2 = Inr g'"
    by (auto simp: fillEntities_step_def Let_def g1_def split: sum.splits)
  have g1: "parsedDataOf g1 = parsedDataOf g" "relCount g1 = relCount g"
    by (simp_all add: g1_def relCount_def fun_eq_iff)
  from setFieldsOfEntity_same[OF f] g1
  have g2: "parsedDataOf g2 = parsedDataOf g" "relCount g2 = relCount g" by simp_all
  then have "potential g2 = potential g" by (simp add: potential_def fun_eq_iff)
  with setRelationshipOfEntity_count[OF r _ assms(3), of Q] g2(1) assms(2) show ?thesis by simp
qed

lemma resolved_none [simp]: "resolved (\<lambda>i x. False) A = A"
  by (simp add: resolved_def)

lemma fillLoop_count:
  assumes "forEach (fillEntities_step env) cs g = Inr g'" and "distinct cs"
    and "distinct (map fst (associations (parsedDataOf g)))"
  shows "associations (parsedDataOf g')
         = resolved (\<lambda>i x. assoc_from x \<in> set cs) (associations (parsedDataOf g))
         \<and> (\<forall>k. potential g' k = potential g k
                + (if k \<in> set cs
                   then length (filter (\<lambda>p. assoc_from (snd p) = k) (associations (parsedDataOf g)))
                        + length (filter (\<lambda>p. assoc_to (snd p) = k
                                              \<and> truthy (injectedFieldInTo (snd p)))
                                    (associations (parsedDataOf g)))
                   else 0))"
proof -
  let ?A = "associations (parsedDataOf g)"
  let ?n = "\<lambda>k. length (filter (\<lambda>p. assoc_from (snd p) = k) ?A)
                 + length (filter (\<lambda>p. assoc_to (snd p) = k \<and> truthy (injectedFieldInTo (snd p))) ?A)"
  let ?I = "\<lambda>ys a. associations (parsedDataOf a) = resolved (\<lambda>i x. assoc_from x \<in> set ys) ?A
         \<and> (\<forall>k. potential a k = potential g k + (if k \<in> set ys then ?n k else 0))"
  have "?I cs g'"
  proof (rule forEach_prefix_inv[OF assms(1), where I = ?I])
    show "?I [] g" by simp
  next
    fix ys D zs a b
    assume cs: "cs = ys @ D # zs" and i: "?I ys a" and s: "fillEntities_step env D a = Inr b"
    have n: "D \<notin> set ys" using assms(2) cs by simp
    from i have a: "associations (parsedDataOf a) = resolved (\<lambda>i x. assoc_from x \<in> set ys) ?A"
      by blast
    note c = fillEntities_step_count[OF s a assms(3)]
    have "resolved (\<lambda>i x. assoc_from x \<in> set ys \<or> assoc_from x = D) ?A
          = resolved (\<lambda>i x. assoc_from x \<in> set (ys @ [D])) ?A"
      by (rule resolved_cong) auto
    with c have 1: "associations (parsedDataOf b)
                    = resolved (\<lambda>i x. assoc_from x \<in> set (ys @ [D])) ?A" by simp
    have 2: "potential b k = potential g k + (if k \<in> set (ys @ [D]) then ?n k else 0)" for k
    proof -
      have "potential b k = potential a k + (if k = D then ?n D else 0)" using c by blast
      moreover have "potential a k = potential g k + (if k \<in> set ys then ?n k else 0)"
        using i by blast
      ultimately show ?thesis using n by auto
    qed
    from 1 2 show "?I (ys @ [D]) b" by blast
  qed
  then show ?thesis .
qed

lemma pending_resolved_all:
  "(\<And>p. p \<in> set A \<Longrightarrow> Q (fst p) (snd p)) \<Longrightarrow> pending (resolved Q A) k = 0"
  by (induction A) (auto simp: pending_def resolved_def)

lemma arriving_split:
  "length (filter (\<lambda>p. assoc_to (snd p) = k
                         \<and> (truthy (injectedFieldInTo (snd p)) \<or> assoc_type (snd p) = ONE_TO_MANY)) A)
   = length (filter (\<lambda>p. assoc_to (snd p) = k \<and> truthy (injectedFieldInTo (snd p))) A)
     + pending A k"
  by (induction A) (auto simp: pending_def synthesizes_def)

lemma relationships_setOptions [simp]: "relationships (setOptions g e n) = relationships e"
  by (simp add: setOptions_def Let_def split: option.splits)

lemma initializeEntities_loop_relCount:
  "initializeEntities_loop env cs i g = Inr g' \<Longrightarrow> (\<And>k. relCount g k = 0) \<Longrightarrow> relCount g' k = 0"
proof (induction cs arbitrary: i g)
  case Nil
  then show ?case by simp
next
  case (Cons c cs)
  from Cons.prems(1) obtain v where
    r: "initializeEntities_loop env cs (Suc i) (g\<lparr>entities := AList.update c v (entities g)\<rparr>) = Inr g'"
    and v: "relationships v = []"
    by (auto simp: Let_def split: option.splits)
  have "relCount (g\<lparr>entities := AList.update c v (entities g)\<rparr>) j = 0" for j
    using Cons.prems(2)[of j] v by (simp add: relCount_def update_conv')
  from Cons.IH[OF r this] show ?case .
qed

lemma createEntities_resolution:
  assumes "createEntities env a = Inr (ents, g)" and "arg_parsedData a = Some pd"
    and "distinct (map fst (classes pd))" and "distinct (map fst (associations pd))"
  obtains dt g2 g3 g' where
    "g = suppressEntities g'"
    "associations (parsedDataOf g)
     = resolved (\<lambda>i x. assoc_from x \<in> set (map fst (classes pd))) (associations pd)"
    "\<And>k e. map_of (entities g') k = Some e
      \<Longrightarrow> k \<in> set (map fst (classes pd))
          \<and> length (relationships e) + pending (associations (parsedDataOf g)) k
            = pending (associations pd) k
              + length (filter (\<lambda>p. assoc_from (snd p) = k) (associations pd))
              + length (filter (\<lambda>p. assoc_to (snd p) = k \<and> truthy (injectedFieldInTo (snd p)))
                          (associations pd))"
    "arg_databaseTypes a = Some dt"
    "readJSONFiles env (init (merge a) pd dt) = Inr g2"
    "initializeEntities env g2 = Inr g3"
    "forEach (fillEntities_step env) (map fst (classes pd)) g3 = Inr g'"
    "parsedDataOf g3 = pd"
    "\<And>k. map_of ents k = (if isUser pd k then None else map_of (entities g') k)"
proof (rule createEntities_stages[OF assms(1,2)])
  fix dt g2 g3 g'
  assume dt: "arg_databaseTypes a = Some dt"
    and r: "readJSONFiles_loop env (map fst (classes pd)) (init (merge a) pd dt) = Inr g2"
    and i: "initializeEntities_loop env (map fst (classes pd)) 0 g2 = Inr g3"
    and f: "forEach (fillEntities_step env) (map fst (classes pd)) g3 = Inr g'"
    and g: "g = suppressEntities g'" and e: "ents = entities g"
    and p3: "parsedDataOf g3 = pd" and s3: "entitiesToSuppress g3 = []"
  let ?cs = "map fst (classes pd)"
  have r': "readJSONFiles env (init (merge a) pd dt) = Inr g2"
    using r by (simp add: readJSONFiles_def)
  have "parsedDataOf g2 = pd" by (subst readJSONFiles_loop_frame[OF r]) simp
  then have i': "initializeEntities env g2 = Inr g3"
    using i by (simp add: initializeEntities_def)
  have e2: "entities g2 = []" by (subst readJSONFiles_loop_frame[OF r]) simp
  then have "relCount g2 k = 0" for k by (simp add: relCount_def)
  from initializeEntities_loop_relCount[OF i this] have r3: "relCount g3 k = 0" for k .
  note c = fillLoop_count[OF f assms(3)]
  have a': "associations (parsedDataOf g') = resolved (\<lambda>i x. assoc_from x \<in> set ?cs) (associations pd)"
    using c p3 assms(4) by simp
  have cnt: "k \<in> set ?cs
          \<and> length (relationships e) + pending (associations (parsedDataOf g)) k
            = pending (associations pd) k
              + length (filter (\<lambda>p. assoc_from (snd p) = k) (associations pd))
              + length (filter (\<lambda>p. assoc_to (snd p) = k \<and> truthy (injectedFieldInTo (snd p)))
                          (associations pd))"
    if m: "map_of (entities g') k = Some e" for k e
  proof -
    have "map fst (entities g') = map fst (entities g3)"
      using frame_fillEntities_loop[OF f] by (simp add: frame_def)
    then have "map_of (entities g3) k \<noteq> None"
      using m by (metis map_of_eq_None_iff option.distinct(1) set_map)
    then have k: "k \<in> set ?cs"
      using initializeEntities_loop_other[OF i, of k] e2 by (cases "k \<in> set ?cs") simp_all
    have "potential g' k = potential g3 k
            + length (filter (\<lambda>p. assoc_from (snd p) = k) (associations pd))
            + length (filter (\<lambda>p. assoc_to (snd p) = k \<and> truthy (injectedFieldInTo (snd p)))
                          (associations pd))"
      using c p3 assms(4) k by simp
    moreover have "potential g3 k = pending (associations pd) k"
      using r3[of k] p3 by (simp add: potential_def)
    moreover have "potential g' k
                   = length (relationships e) + pending (associations (parsedDataOf g)) k"
      using m g by (simp add: potential_def relCount_def)
    ultimately show ?thesis using k by simp
  qed
  have s: "entitiesToSuppress g' = filter (isUser pd) ?cs"
    using frame_fillEntities_loop[OF f] p3 s3 by (simp add: frame_def)
  have l: "map_of ents k
           = (if k \<in> set (entitiesToSuppress g') then None else map_of (entities g') k)" for k
    unfolding e g by (rule suppressEntities_lookup)
  have fin: "map_of ents k = (if isUser pd k then None else map_of (entities g') k)" for k
  proof (cases "isUser pd k")
    case True
    then obtain c where "getClass pd k = Some c"
      by (auto simp: isUser_def split: option.splits)
    from getClass_keys[OF this] True show ?thesis by (simp add: l s)
  next
    case False
    then show ?thesis by (simp add: l s)
  qed
  have a'': "associations (parsedDataOf g)
     = resolved (\<lambda>i x. assoc_from x \<in> set (map fst (classes pd))) (associations pd)"
    by (simp add: g a')
  show ?thesis
    by (rule that[OF g a'' cnt dt r' i' f p3 fin])
qed

lemma relationshipsOf_Some:
  "relationshipsOf r cid = Some rs
   \<Longrightarrow> \<exists>e. map_of (fst (projr r)) cid = Some e \<and> relationships e = rs \<and> \<not> isl r"
  by (cases r) (auto simp: relationshipsOf_def)

lemma relationship_count:
  assumes "createEntities env a = Inr (ents, g)" and "arg_parsedData a = Some pd"
    and "distinct (map fst (classes pd))" and "distinct (map fst (associations pd))"
    and "\<forall>p \<in> set (associations pd). assoc_from (snd p) \<in> set (map fst (classes pd))"
    and "map_of ents classId = Some e"
  shows "length (relationships e) = leaving pd classId + arriving pd classId"
proof (rule createEntities_resolution[OF assms(1-4)])
  fix g'
  assume g: "g = suppressEntities g'"
    and a: "associations (parsedDataOf g)
     = resolved (\<lambda>i x. assoc_from x \<in> set (map fst (classes pd))) (associations pd)"
    and c: "\<And>k e. map_of (entities g') k = Some e
      \<Longrightarrow> k \<in> set (map fst (classes pd))
          \<and> length (relationships e) + pending (associations (parsedDataOf g)) k
            = pending (associations pd) k
              + length (filter (\<lambda>p. assoc_from (snd p) = k) (associations pd))
              + length (filter (\<lambda>p. assoc_to (snd p) = k \<and> truthy (injectedFieldInTo (snd p)))
                          (associations pd))"
  have "ents = entities g"
    using assms(1) by (auto simp: createEntities_def Let_def split: option.splits sum.splits prod.splits)
  with assms(6) g have m: "map_of (entities g') classId = Some e"
    by (auto simp: suppressEntities_lookup split: if_splits)
  have "pending (associations (parsedDataOf g)) classId = 0"
    unfolding a using assms(5) by (intro pending_resolved_all) simp
  with c[OF m] show ?thesis
    by (simp add: leaving_def arriving_def arriving_split)
qed

section \<open>The relationship records of an association\<close>




section \<open>Records that stay\<close>

lemma grows_refl [simp]: "grows g g"
  by (simp add: grows_def)

lemma grows_trans: "grows a b \<Longrightarrow> grows b c \<Longrightarrow> grows a c"
  unfolding grows_def by (meson subset_trans)

lemma grows_pushRelationship: "grows a g \<Longrightarrow> grows a (pushRelationship c r g)"
  unfolding grows_def by (fastforce simp: map_of_entities_push)

lemma grows_updateAssociation [simp]: "grows a (updateAssociation x f g) = grows a g"
  by (simp add: grows_def)

lemma grows_fromStep: "fromStep env c x g = Inr g' \<Longrightarrow> grows g g'"
  by (rule fromStep_cases) (auto intro!: grows_pushRelationship)

lemma grows_toStep: "toStep env c x g = Inr g' \<Longrightarrow> grows g g'"
  by (auto simp: toStep_def Let_def split: option.splits if_splits intro!: grows_pushRelationship)

lemma grows_forEach:
  assumes "forEach f xs g = Inr g'" and "\<And>x a b. f x a = Inr b \<Longrightarrow> grows a b"
  shows "grows g g'"
  by (rule forEach_inv[OF assms(1), where I = "grows g"]) (auto intro: grows_trans assms(2))

lemma grows_setFieldsOfEntity_loop: "setFieldsOfEntity_loop env c fs g = Inr g' \<Longrightarrow> grows g g'"
proof (induction fs arbitrary: g)
  case Nil
  then show ?case by simp
next
  case (Cons f fs)
  from Cons.prems obtain fd where
    r: "setFieldsOfEntity_loop env c fs
          (g\<lparr>entities := AList.map_entry c (\<lambda>e. e\<lparr>entity_fields := entity_fields e @ [fd]\<rparr>) (entities g)\<rparr>) = Inr g'"
    by (auto simp: Let_def split: option.splits)
  have "grows g (g\<lparr>entities := AList.map_entry c (\<lambda>e. e\<lparr>entity_fields := entity_fields e @ [fd]\<rparr>) (entities g)\<rparr>)"
    by (auto simp: grows_def map_of_map_entry)
  then show ?case using Cons.IH[OF r] by (rule grows_trans)
qed

lemma grows_setFieldsOfEntity: "setFieldsOfEntity env c g = Inr g' \<Longrightarrow> grows g g'"
  by (auto simp: setFieldsOfEntity_def split: option.splits dest: grows_setFieldsOfEntity_loop)

lemma grows_setRelationshipOfEntity: "setRelationshipOfEntity env c g = Inr g' \<Longrightarrow> grows g g'"
  by (auto simp: setRelationshipOfEntity_def split: option.splits sum.splits
      intro: grows_trans[OF grows_forEach[of "fromStep env c"] grows_forEach[of "toStep env c"]]
        grows_fromStep grows_toStep)

lemma grows_fillEntities_step: "fillEntities_step env c g = Inr g' \<Longrightarrow> grows g g'"
proof -
  assume a: "fillEntities_step env c g = Inr g'"
  then obtain cl where cl: "getClass (parsedDataOf g) c = Some cl"
    by (auto simp: fillEntities_step_def split: option.splits)
  define g1 where "g1 = (if toLowerCase (class_name cl) = USER
                     then g\<lparr>entitiesToSuppress := entitiesToSuppress g @ [c]\<rparr> else g)"
  from a cl obtain g2 where f: "setFieldsOfEntity env c g1 = Inr g2"
    and r: "setRelationshipOfEntity env c g2 = Inr g'"
    by (auto simp: fillEntities_step_def Let_def g1_def split: sum.splits)
  have "grows g g1" by (simp add: g1_def grows_def)
  from grows_trans[OF this grows_trans[OF grows_setFieldsOfEntity[OF f] grows_setRelationshipOfEntity[OF r]]]
  show ?thesis .
qed

lemma hasRecord_grows: "grows g g' \<Longrightarrow> hasRecord P k g \<Longrightarrow> hasRecord P k g'"
  unfolding grows_def hasRecord_def by blast

lemma hasRecord_push:
  "map_of (entities g) k = Some e \<Longrightarrow> P r \<Longrightarrow> hasRecord P k (pushRelationship k r g)"
  by (auto simp: hasRecord_def map_of_entities_push)

lemma fromLoop_record:
  assumes "forEach (fromStep env D) xs g = Inr g'"
    and "associations (parsedDataOf g) = resolved Q A" and "distinct (map fst A)"
    and "distinct xs" and "(aid, x) \<in> set A" and "\<not> Q aid x" and "aid \<in> set xs"
    and "classes (parsedDataOf g) = C"
    and est: "\<And>s s'. getAssociation (parsedDataOf s) aid = Some x \<Longrightarrow> classes (parsedDataOf s) = C
                \<Longrightarrow> fromStep env D aid s = Inr s' \<Longrightarrow> hasRecord P K s'"
  shows "hasRecord P K g'"
proof -
  let ?I = "\<lambda>ys b. associations (parsedDataOf b) = resolved (\<lambda>i y. Q i y \<or> i \<in> set ys) A
              \<and> classes (parsedDataOf b) = C \<and> (aid \<in> set ys \<longrightarrow> hasRecord P K b)"
  have "?I xs g'"
  proof (rule forEach_prefix_inv[OF assms(1), where I = ?I])
    show "?I [] g" using assms(2,8) by simp
  next
    fix ys z zs a b
    assume xs: "xs = ys @ z # zs" and i: "?I ys a" and s: "fromStep env D z a = Inr b"
    have z: "z \<notin> set ys" using assms(4) xs by simp
    from i have ia: "associations (parsedDataOf a) = resolved (\<lambda>i y. Q i y \<or> i \<in> set ys) A"
      and ic: "classes (parsedDataOf a) = C" and ir: "aid \<in> set ys \<Longrightarrow> hasRecord P K a"
      by blast+
    have d: "distinct (map fst (associations (parsedDataOf a)))" using ia assms(3) by simp
    have "associations (parsedDataOf b) = resolved (\<lambda>i y. (Q i y \<or> i \<in> set ys) \<or> i = z) A"
      using fromStep_associations[OF s d] ia by (simp add: resolved_step)
    also have "\<dots> = resolved (\<lambda>i y. Q i y \<or> i \<in> set (ys @ [z])) A"
      by (rule resolved_cong) auto
    finally have 1: "associations (parsedDataOf b) = resolved (\<lambda>i y. Q i y \<or> i \<in> set (ys @ [z])) A" .
    have 2: "classes (parsedDataOf b) = C" using frame_fromStep[OF s] ic by (simp add: frame_def)
    have 3: "hasRecord P K b" if "aid \<in> set (ys @ [z])"
    proof (cases "z = aid")
      case True
      have "map_of A aid = Some x" using assms(3,5) by simp
      then have "getAssociation (parsedDataOf a) aid = Some x"
        using assms(6) z True by (simp add: getAssociation_def ia map_of_resolved)
      from est[OF this ic] s True show ?thesis by simp
    next
      case False
      with that have "aid \<in> set ys" by simp
      from hasRecord_grows[OF grows_fromStep[OF s] ir[OF this]] show ?thesis .
    qed
    from 1 2 3 show "?I (ys @ [z]) b" by blast
  qed
  with assms(7) show ?thesis by blast
qed

lemma setRelationshipOfEntity_record:
  assumes "setRelationshipOfEntity env D g = Inr g'"
    and "associations (parsedDataOf g) = resolved Q A" and "distinct (map fst A)"
    and "(aid, x) \<in> set A" and "assoc_from x = D" and "\<not> Q aid x"
    and "classes (parsedDataOf g) = C"
    and est: "\<And>s s'. getAssociation (parsedDataOf s) aid = Some x \<Longrightarrow> classes (parsedDataOf s) = C
                \<Longrightarrow> fromStep env D aid s = Inr s' \<Longrightarrow> hasRecord P K s'"
  shows "hasRecord P K g'"
proof -
  let ?froms = "map fst (filter (\<lambda>p. assoc_from (snd p) = D) A)"
  let ?tos = "map fst (filter (\<lambda>p. assoc_to (snd p) = D \<and> truthy (injectedFieldInTo (snd p))) A)"
  have "getRelatedAssociations D (map fst (associations (parsedDataOf g)))
          (associations (parsedDataOf g)) ([], []) = Some (?froms, ?tos)"
    unfolding assms(2) using assms(3) by (subst getRelatedAssociations_all) simp_all
  with assms(1) obtain g1 where f: "forEach (fromStep env D) ?froms g = Inr g1"
    and t: "forEach (toStep env D) ?tos g1 = Inr g'"
    by (auto simp: setRelationshipOfEntity_def split: sum.splits)
  have df: "distinct ?froms" using assms(3) by (rule distinct_map_filter)
  have "aid \<in> set ?froms" using assms(4,5) by force
  from fromLoop_record[OF f assms(2,3) df assms(4,6) this assms(7) est]
  have "hasRecord P K g1" .
  moreover have "grows g1 g'" using t by (rule grows_forEach) (rule grows_toStep)
  ultimately show ?thesis by (rule hasRecord_grows[rotated])
qed

lemma fillEntities_step_cases:
  assumes "fillEntities_step env D g = Inr g'"
  obtains g2 where "parsedDataOf g2 = parsedDataOf g" "grows g g2"
    "setRelationshipOfEntity env D g2 = Inr g'"
proof -
  from assms obtain cl where cl: "getClass (parsedDataOf g) D = Some cl"
    by (auto simp: fillEntities_step_def split: option.splits)
  define g1 where "g1 = (if toLowerCase (class_name cl) = USER
                     then g\<lparr>entitiesToSuppress := entitiesToSuppress g @ [D]\<rparr> else g)"
  from assms cl obtain g2 where f: "setFieldsOfEntity env D g1 = Inr g2"
    and r: "setRelationshipOfEntity env D g2 = Inr g'"
    by (auto simp: fillEntities_step_def Let_def g1_def split: sum.splits)
  have g1: "parsedDataOf g1 = parsedDataOf g" "grows g g1"
    by (simp_all add: g1_def grows_def)
  from setFieldsOfEntity_same[OF f] g1(1) have "parsedDataOf g2 = parsedDataOf g" by simp
  moreover have "grows g g2" using g1(2) grows_setFieldsOfEntity[OF f] by (rule grows_trans)
  ultimately show ?thesis using r by (rule that)
qed

lemma fillLoop_record:
  assumes "forEach (fillEntities_step env) cs g = Inr g'" and "distinct cs"
    and "distinct (map fst (associations (parsedDataOf g)))"
    and "(aid, x) \<in> set (associations (parsedDataOf g))" and "assoc_from x \<in> set cs"
    and est: "\<And>s s'. getAssociation (parsedDataOf s) aid = Some x
                \<Longrightarrow> classes (parsedDataOf s) = classes (parsedDataOf g)
                \<Longrightarrow> fromStep env (assoc_from x) aid s = Inr s' \<Longrightarrow> hasRecord P K s'"
  shows "hasRecord P K g'"
proof -
  let ?A = "associations (parsedDataOf g)"
  let ?I = "\<lambda>ys a. associations (parsedDataOf a) = resolved (\<lambda>i y. assoc_from y \<in> set ys) ?A
              \<and> classes (parsedDataOf a) = classes (parsedDataOf g)
              \<and> (assoc_from x \<in> set ys \<longrightarrow> hasRecord P K a)"
  have "?I cs g'"
  proof (rule forEach_prefix_inv[OF assms(1), where I = ?I])
    show "?I [] g" by simp
  next
    fix ys D zs a b
    assume cs: "cs = ys @ D # zs" and i: "?I ys a" and s: "fillEntities_step env D a = Inr b"
    have n: "D \<notin> set ys" using assms(2) cs by simp
    from i have ia: "associations (parsedDataOf a) = resolved (\<lambda>i y. assoc_from y \<in> set ys) ?A"
      and ic: "classes (parsedDataOf a) = classes (parsedDataOf g)"
      and ir: "assoc_from x \<in> set ys \<Longrightarrow> hasRecord P K a"
      by blast+
    note c = fillEntities_step_count[OF s ia assms(3)]
    have "resolved (\<lambda>i y. assoc_from y \<in> set ys \<or> assoc_from y = D) ?A
          = resolved (\<lambda>i y. assoc_from y \<in> set (ys @ [D])) ?A"
      by (rule resolved_cong) auto
    with c have 1: "associations (parsedDataOf b)
                    = resolved (\<lambda>i y. assoc_from y \<in> set (ys @ [D])) ?A" by simp
    have 2: "classes (parsedDataOf b) = classes (parsedDataOf g)"
      using frame_fillEntities_step[OF s] ic by (simp add: frame_def)
    have 3: "hasRecord P K b" if "assoc_from x \<in> set (ys @ [D])"
    proof (cases "assoc_from x = D")
      case True
      show ?thesis
      proof (rule fillEntities_step_cases[OF s])
        fix g2
        assume p: "parsedDataOf g2 = parsedDataOf a"
          and r: "setRelationshipOfEntity env D g2 = Inr b"
        have q: "\<not> (assoc_from x \<in> set ys)" using True n by simp
        have a2: "associations (parsedDataOf g2) = resolved (\<lambda>i y. assoc_from y \<in> set ys) ?A"
          using p ia by simp
        have c2: "classes (parsedDataOf g2) = classes (parsedDataOf g)" using p ic by simp
        have e2: "hasRecord P K s'"
          if "getAssociation (parsedDataOf s) aid = Some x"
            "classes (parsedDataOf s) = classes (parsedDataOf g)"
            "fromStep env D aid s = Inr s'" for s s'
          using est[of s s'] that True by simp
        show ?thesis
          by (rule setRelationshipOfEntity_record[where Q = "\<lambda>i y. assoc_from y \<in> set ys"
                and A = ?A and x = x and aid = aid and C = "classes (parsedDataOf g)",
                OF r a2 assms(3,4) True q c2 e2])
      qed
    next
      case False
      with that have "assoc_from x \<in> set ys" by simp
      from hasRecord_grows[OF grows_fillEntities_step[OF s] ir[OF this]] show ?thesis .
    qed
    from 1 2 3 show "?I (ys @ [D]) b" by blast
  qed
  with assms(5) show ?thesis by blast
qed

lemma fromStep_synthesizes:
  assumes "fromStep env c aid s = Inr s'" and "getAssociation (parsedDataOf s) aid = Some x"
    and "synthesizes x" and "getClass (parsedDataOf s) (assoc_from x) = Some fromClass"
  shows "\<exists>toEntity r. map_of (entities s) (assoc_to x) = Some toEntity
           \<and> s' = pushRelationship c r
                    (pushRelationship (assoc_to x)
                       (otherSideRelationship env x (class_name fromClass)
                          (length (relationships toEntity) + 1))
                       (updateAssociation aid (\<lambda>a. a\<lparr>assoc_type := MANY_TO_ONE\<rparr>) s))"
  by (rule fromStep_cases[OF assms(1)]) (use assms(2-4) in auto)

lemma otherSideRelationship_simps [simp]:
  "relationshipType (otherSideRelationship env x n i) = MANY_TO_ONE"
  "relationshipName (otherSideRelationship env x n i) = Some (camelCase env (lowerFirst env n))"
  "otherEntityName (otherSideRelationship env x n i) = Some (lowerFirst env (camelCase env n))"
  "relationshipId (otherSideRelationship env x n i) = i"
  by (simp_all add: otherSideRelationship_def newRelationship_def Let_def)

lemma fromStep_synthesized_record:
  assumes "fromStep env c aid s = Inr s'" and "getAssociation (parsedDataOf s) aid = Some x"
    and "synthesizes x" and "getClass (parsedDataOf s) (assoc_from x) = Some fromClass"
  shows "hasRecord (\<lambda>r. relationshipType r = MANY_TO_ONE
                       \<and> relationshipName r = Some (camelCase env (lowerFirst env (class_name fromClass)))
                       \<and> otherEntityName r = Some (lowerFirst env (camelCase env (class_name fromClass))))
           (assoc_to x) s'"
proof -
  from fromStep_synthesizes[OF assms] obtain toEntity r where
    t: "map_of (entities s) (assoc_to x) = Some toEntity"
    and s': "s' = pushRelationship c r
                    (pushRelationship (assoc_to x)
                       (otherSideRelationship env x (class_name fromClass)
                          (length (relationships toEntity) + 1))
                       (updateAssociation aid (\<lambda>a. a\<lparr>assoc_type := MANY_TO_ONE\<rparr>) s))"
    by blast
  let ?s0 = "updateAssociation aid (\<lambda>a. a\<lparr>assoc_type := MANY_TO_ONE\<rparr>) s"
  have "map_of (entities ?s0) (assoc_to x) = Some toEntity" using t by simp
  from hasRecord_push[OF this, where P = "\<lambda>r. relationshipType r = MANY_TO_ONE
                       \<and> relationshipName r = Some (camelCase env (lowerFirst env (class_name fromClass)))
                       \<and> otherEntityName r = Some (lowerFirst env (camelCase env (class_name fromClass)))"]
  have "hasRecord (\<lambda>r. relationshipType r = MANY_TO_ONE
                       \<and> relationshipName r = Some (camelCase env (lowerFirst env (class_name fromClass)))
                       \<and> otherEntityName r = Some (lowerFirst env (camelCase env (class_name fromClass))))
           (assoc_to x)
           (pushRelationship (assoc_to x)
              (otherSideRelationship env x (class_name fromClass) (length (relationships toEntity) + 1))
              ?s0)"
    by simp
  then show ?thesis unfolding s'
    by (rule hasRecord_grows[OF grows_pushRelationship[OF grows_refl]])
qed

lemma createEntities_normalized:
  assumes "createEntities env a = Inr (ents, g)" and "arg_parsedData a = Some pd"
    and "distinct (map fst (classes pd))" and "distinct (map fst (associations pd))"
    and "(aid, x) \<in> set (associations pd)"
    and "assoc_from x \<in> set (map fst (classes pd))"
  shows "getAssociation (parsedDataOf g) aid = Some (normalize x)"
proof (rule createEntities_resolution[OF assms(1-4)])
  fix g'
  assume "associations (parsedDataOf g)
     = resolved (\<lambda>i x. assoc_from x \<in> set (map fst (classes pd))) (associations pd)"
  moreover have "map_of (associations pd) aid = Some x" using assms(4,5) by simp
  ultimately show ?thesis using assms(6) by (simp add: getAssociation_def map_of_resolved)
qed

lemma fromStep_from_record:
  assumes "fromStep env c aid s = Inr s'" and "getAssociation (parsedDataOf s) aid = Some x"
    and "getClass (parsedDataOf s) (assoc_from x) = Some fromClass"
    and "getClass (parsedDataOf s) (assoc_to x) = Some toClass"
  shows "hasRecord (\<lambda>r. \<exists>n. r = fromRelationship env x (class_name fromClass) (class_name toClass) n)
           c s'"
proof (rule fromStep_cases[OF assms(1)])
  fix y and fc tc :: class_model and entity :: entity
  assume "getAssociation (parsedDataOf s) aid = Some y"
    "getClass (parsedDataOf s) (assoc_from y) = Some fc"
    "getClass (parsedDataOf s) (assoc_to y) = Some tc"
    "checkValidityOfAssociation env y (class_name fc) (class_name tc)"
    "map_of (entities s) c = Some entity" "\<not> synthesizes y"
    "s' = pushRelationship c
            (fromRelationship env y (class_name fc) (class_name tc)
               (length (relationships entity) + 1)) s"
  with assms(2-4) show ?thesis by (auto intro!: hasRecord_push)
next
  fix y and fc tc :: class_model and entity toEntity :: entity
  assume h: "getAssociation (parsedDataOf s) aid = Some y"
    "getClass (parsedDataOf s) (assoc_from y) = Some fc"
    "getClass (parsedDataOf s) (assoc_to y) = Some tc"
    "checkValidityOfAssociation env y (class_name fc) (class_name tc)"
    "map_of (entities s) c = Some entity" "synthesizes y"
    "map_of (entities s) (assoc_to y) = Some toEntity"
    "s' = pushRelationship c
            (fromRelationship env y (class_name fc) (class_name tc)
               (length (relationships entity) + 1))
            (pushRelationship (assoc_to y)
               (otherSideRelationship env y (class_name fc)
                  (length (relationships toEntity) + 1))
               (updateAssociation aid (\<lambda>a. a\<lparr>assoc_type := MANY_TO_ONE\<rparr>) s))"
  let ?s0 = "pushRelationship (assoc_to y)
               (otherSideRelationship env y (class_name fc) (length (relationships toEntity) + 1))
               (updateAssociation aid (\<lambda>a. a\<lparr>assoc_type := MANY_TO_ONE\<rparr>) s)"
  from h(5,7) obtain e0 where "map_of (entities ?s0) c = Some e0"
    by (cases "c = assoc_to y") (auto simp: map_of_entities_push)
  from hasRecord_push[OF this, of "\<lambda>r. \<exists>n. r = fromRelationship env x (class_name fromClass) (class_name toClass) n"
      "fromRelationship env y (class_name fc) (class_name tc) (length (relationships entity) + 1)"]
    h(1,2,3,8) assms(2-4)
  show ?thesis by auto
qed

lemma createEntities_record:
  assumes "createEntities env a = Inr (ents, g)" and "arg_parsedData a = Some pd"
    and "distinct (map fst (classes pd))" and "distinct (map fst (associations pd))"
    and "(aid, x) \<in> set (associations pd)" and "assoc_from x \<in> set (map fst (classes pd))"
    and "\<not> isUser pd K"
    and est: "\<And>s s'. getAssociation (parsedDataOf s) aid = Some x
                \<Longrightarrow> classes (parsedDataOf s) = classes pd
                \<Longrightarrow> fromStep env (assoc_from x) aid s = Inr s' \<Longrightarrow> hasRecord P K s'"
  shows "\<exists>e r. map_of ents K = Some e \<and> r \<in> set (relationships e) \<and> P r"
proof (rule createEntities_resolution[OF assms(1-4)])
  fix dt g2 g3 g'
  assume f: "forEach (fillEntities_step env) (map fst (classes pd)) g3 = Inr g'"
    and p3: "parsedDataOf g3 = pd"
    and fin: "\<And>k. map_of ents k = (if isUser pd k then None else map_of (entities g') k)"
  have "hasRecord P K g'"
  proof (rule fillLoop_record[OF f assms(3), where aid = aid and x = x])
    show "distinct (map fst (associations (parsedDataOf g3)))" using p3 assms(4) by simp
    show "(aid, x) \<in> set (associations (parsedDataOf g3))" using p3 assms(5) by simp
    show "assoc_from x \<in> set (map fst (classes pd))" by (rule assms(6))
  next
    fix s s'
    assume "getAssociation (parsedDataOf s) aid = Some x"
      "classes (parsedDataOf s) = classes (parsedDataOf g3)"
      "fromStep env (assoc_from x) aid s = Inr s'"
    then show "hasRecord P K s'" using est[of s s'] p3 by simp
  qed
  then show ?thesis using fin[of K] assms(7) by (auto simp: hasRecord_def)
qed

lemma arriving_resolved_all:
  "(\<And>p. p \<in> set A \<Longrightarrow> Q (fst p) (snd p))
   \<Longrightarrow> length (filter (\<lambda>p. assoc_to (snd p) = k
                         \<and> (truthy (injectedFieldInTo (snd p)) \<or> assoc_type (snd p) = ONE_TO_MANY))
               (resolved Q A))
       = length (filter (\<lambda>p. assoc_to (snd p) = k \<and> truthy (injectedFieldInTo (snd p))) A)"
  by (induction A) (auto simp: resolved_def normalize_def synthesizes_def)

lemma leaving_resolved:
  "length (filter (\<lambda>p. assoc_from (snd p) = k) (resolved Q A))
   = length (filter (\<lambda>p. assoc_from (snd p) = k) A)"
  by (induction A) (auto simp: resolved_def)


section \<open>The inverse side of a ONE_TO_MANY\<close>

text \<open>
  Claim C2. Take a \<^verbatim>\<open>ONE_TO_MANY\<close> association without \<^verbatim>\<open>injectedFieldInTo\<close>, in a model
  whose associations all leave a class of the model. When \<^verbatim>\<open>createEntities\<close> returns, the
  association is stored with the type \<^verbatim>\<open>MANY_TO_ONE\<close>; and in the state \<open>g'\<close> in which every
  class has been resolved, the entity of the target class holds a \<^verbatim>\<open>MANY_TO_ONE\<close> record
  named after the source class (\<^verbatim>\<open>camelCase\<close> of \<^verbatim>\<open>lowerFirst\<close> as \<^verbatim>\<open>relationshipName\<close>,
  \<^verbatim>\<open>lowerFirst\<close> of \<^verbatim>\<open>camelCase\<close> as \<^verbatim>\<open>otherEntityName\<close>). The target entity holds one record
  for each association that leaves its class and one for each that arrives with
  \<^verbatim>\<open>injectedFieldInTo\<close> or as a \<^verbatim>\<open>ONE_TO_MANY\<close>, so that this association accounts for exactly
  one of them. The returned map holds this entity unless the target class is named
  \<^verbatim>\<open>User\<close>.
\<close>

theorem oneToMany_inverse_synthesized:
  assumes "createEntities env a = Inr (ents, g)" and "arg_parsedData a = Some pd"
    and "distinct (map fst (classes pd))" and "distinct (map fst (associations pd))"
    and "\<forall>p \<in> set (associations pd). assoc_from (snd p) \<in> set (map fst (classes pd))"
    and "(associationId, x) \<in> set (associations pd)"
    and "assoc_type x = ONE_TO_MANY" and "\<not> truthy (injectedFieldInTo x)"
    and "getClass pd (assoc_from x) = Some fromClass"
  shows "getAssociation (parsedDataOf g) associationId = Some (x\<lparr>assoc_type := MANY_TO_ONE\<rparr>)
     \<and> (\<exists>dt g2 g3 g' e r.
           arg_databaseTypes a = Some dt
           \<and> readJSONFiles env (init (merge a) pd dt) = Inr g2
           \<and> initializeEntities env g2 = Inr g3
           \<and> forEach (fillEntities_step env) (map fst (classes pd)) g3 = Inr g'
           \<and> map_of (entities g') (assoc_to x) = Some e \<and> r \<in> set (relationships e)
           \<and> relationshipType r = MANY_TO_ONE
           \<and> relationshipName r = Some (camelCase env (lowerFirst env (class_name fromClass)))
           \<and> otherEntityName r = Some (lowerFirst env (camelCase env (class_name fromClass)))
           \<and> length (relationships e) = leaving pd (assoc_to x) + arriving pd (assoc_to x)
           \<and> (\<not> isUser pd (assoc_to x) \<longrightarrow> map_of ents (assoc_to x) = Some e))"
proof (rule createEntities_resolution[OF assms(1-4)])
  fix dt g2 g3 g'
  assume g: "g = suppressEntities g'"
    and a: "associations (parsedDataOf g)
     = resolved (\<lambda>i x. assoc_from x \<in> set (map fst (classes pd))) (associations pd)"
    and c: "\<And>k e. map_of (entities g') k = Some e
      \<Longrightarrow> k \<in> set (map fst (classes pd))
          \<and> length (relationships e) + pending (associations (parsedDataOf g)) k
            = pending (associations pd) k
              + length (filter (\<lambda>p. assoc_from (snd p) = k) (associations pd))
              + length (filter (\<lambda>p. assoc_to (snd p) = k \<and> truthy (injectedFieldInTo (snd p)))
                          (associations pd))"
    and dt: "arg_databaseTypes a = Some dt"
    and r: "readJSONFiles env (init (merge a) pd dt) = Inr g2"
    and i: "initializeEntities env g2 = Inr g3"
    and f: "forEach (fillEntities_step env) (map fst (classes pd)) g3 = Inr g'"
    and p3: "parsedDataOf g3 = pd"
    and fin: "\<And>k. map_of ents k = (if isUser pd k then None else map_of (entities g') k)"
  have s: "synthesizes x" using assms(7,8) by (simp add: synthesizes_def)
  have fr: "assoc_from x \<in> set (map fst (classes pd))" using assms(9) by (rule getClass_keys)
  have 1: "getAssociation (parsedDataOf g) associationId = Some (x\<lparr>assoc_type := MANY_TO_ONE\<rparr>)"
    using createEntities_normalized[OF assms(1-4,6) fr] s by (simp add: normalize_def)
  let ?P = "\<lambda>r. relationshipType r = MANY_TO_ONE
              \<and> relationshipName r = Some (camelCase env (lowerFirst env (class_name fromClass)))
              \<and> otherEntityName r = Some (lowerFirst env (camelCase env (class_name fromClass)))"
  have "hasRecord ?P (assoc_to x) g'"
  proof (rule fillLoop_record[OF f assms(3), where aid = associationId and x = x])
    show "distinct (map fst (associations (parsedDataOf g3)))" using p3 assms(4) by simp
    show "(associationId, x) \<in> set (associations (parsedDataOf g3))" using p3 assms(6) by simp
    show "assoc_from x \<in> set (map fst (classes pd))" by (rule fr)
  next
    fix s s'
    assume x: "getAssociation (parsedDataOf s) associationId = Some x"
      and cl: "classes (parsedDataOf s) = classes (parsedDataOf g3)"
      and st: "fromStep env (assoc_from x) associationId s = Inr s'"
    have "getClass (parsedDataOf s) (assoc_from x) = Some fromClass"
      using cl p3 assms(9) by (simp add: getClass_def)
    from fromStep_synthesized_record[OF st x \<open>synthesizes x\<close> this]
    show "hasRecord ?P (assoc_to x) s'" .
  qed
  then obtain e r where e: "map_of (entities g') (assoc_to x) = Some e"
    and rr: "r \<in> set (relationships e)" "?P r"
    by (auto simp: hasRecord_def)
  have "pending (associations (parsedDataOf g)) (assoc_to x) = 0"
    unfolding a using assms(5) by (intro pending_resolved_all) simp
  with c[OF e] have n: "length (relationships e) = leaving pd (assoc_to x) + arriving pd (assoc_to x)"
    by (simp add: leaving_def arriving_def arriving_split)
  have "\<not> isUser pd (assoc_to x) \<longrightarrow> map_of ents (assoc_to x) = Some e"
    using fin[of "assoc_to x"] e by simp
  with 1 dt r i f e rr n show ?thesis by blast
qed

theorem oneToMany_inverse_synthesized_witness:
  "parsedDataAfter (createEntities exampleEnv (exampleArgs authorBook ''sql''))
     = Some (authorBook\<lparr>associations :=
               [(''a1'', \<lparr>assoc_from = ''c1'', assoc_to = ''c2'', assoc_type = MANY_TO_ONE,
                          injectedFieldInFrom = Some ''books'', injectedFieldInTo = None\<rparr>)]\<rparr>)
   \<and> relationshipsOf (createEntities exampleEnv (exampleArgs authorBook ''sql'')) ''c2''
     = Some [\<lparr>relationshipId = 1, relationshipType = MANY_TO_ONE,
               relationshipName = Some ''author'', otherEntityName = Some ''author'',
               otherEntityField = Some ''id'', ownerSide = None,
               otherEntityRelationshipName = None\<rparr>]
   \<and> leaving authorBook ''c2'' + arriving authorBook ''c2'' = 1"
proof -
  let ?r = "createEntities exampleEnv (exampleArgs authorBook ''sql'')"
  let ?x = "\<lparr>assoc_from = ''c1'', assoc_to = ''c2'', assoc_type = ONE_TO_MANY,
             injectedFieldInFrom = Some ''books'', injectedFieldInTo = None\<rparr>"
  have p: "parsedDataAfter ?r
     = Some (authorBook\<lparr>associations :=
               [(''a1'', \<lparr>assoc_from = ''c1'', assoc_to = ''c2'', assoc_type = MANY_TO_ONE,
                          injectedFieldInFrom = Some ''books'', injectedFieldInTo = None\<rparr>)]\<rparr>)"
    by code_simp
  have r2: "relationshipsOf ?r ''c2''
     = Some [\<lparr>relationshipId = 1, relationshipType = MANY_TO_ONE,
               relationshipName = Some ''author'', otherEntityName = Some ''author'',
               otherEntityField = Some ''id'', ownerSide = None,
               otherEntityRelationshipName = None\<rparr>]" by code_simp
  have r: "\<not> isl ?r" using r2 by (cases ?r) (auto simp: relationshipsOf_def)
  have h: "distinct (map fst (classes authorBook))" "distinct (map fst (associations authorBook))"
    "\<forall>p \<in> set (associations authorBook).
        assoc_from (snd p) \<in> set (map fst (classes authorBook))"
    "(''a1'', ?x) \<in> set (associations authorBook)"
    "assoc_type ?x = ONE_TO_MANY" "\<not> truthy (injectedFieldInTo ?x)"
    "getClass authorBook (assoc_from ?x) = Some (exampleClass ''Author'')"
    by (simp_all add: authorBook_def exampleModel_def getClass_def)
  have "arg_parsedData (exampleArgs authorBook ''sql'') = Some authorBook" by simp
  from oneToMany_inverse_synthesized[OF returned[OF r] this h]
  have "\<exists>e. length (relationships e) = leaving authorBook ''c2'' + arriving authorBook ''c2''
           \<and> (\<not> isUser authorBook ''c2'' \<longrightarrow> map_of (fst (projr ?r)) ''c2'' = Some e)"
    by auto
  moreover have "\<not> isUser authorBook ''c2''" by code_simp
  ultimately have "leaving authorBook ''c2'' + arriving authorBook ''c2'' = 1"
    using relationshipsOf_Some[OF r2] by auto
  with p r2 show ?thesis by simp
qed

section \<open>A second call on the same parsed data\<close>

lemma relationshipType_fromRelationship [simp]:
  "relationshipType (fromRelationship env x fn tn n) = assoc_type x"
  by (simp add: fromRelationship_def newRelationship_def Let_def)

text \<open>
  Claim C10. \<^verbatim>\<open>createEntities\<close> changes the caller's parsed data in place: a \<^verbatim>\<open>ONE_TO_MANY\<close>
  association without \<^verbatim>\<open>injectedFieldInTo\<close> is stored as a \<^verbatim>\<open>MANY_TO_ONE\<close> after a first call.
  The first call gives the source entity the from-side record of the \<^verbatim>\<open>ONE_TO_MANY\<close>, and
  every entity one record for each association that leaves its class and one for each
  that arrives with \<^verbatim>\<open>injectedFieldInTo\<close> or as a \<^verbatim>\<open>ONE_TO_MANY\<close>. A second call on the same
  parsed data gives the source entity the from-side record of the \<^verbatim>\<open>MANY_TO_ONE\<close>, and
  every entity one record for each association that leaves its class and one for each
  that arrives with \<^verbatim>\<open>injectedFieldInTo\<close>: nothing is synthesized.
\<close>

theorem second_call_sees_many_to_one:
  assumes "createEntities env a = Inr (ents, g)" and "arg_parsedData a = Some pd"
    and "distinct (map fst (classes pd))" and "distinct (map fst (associations pd))"
    and "\<forall>p \<in> set (associations pd). assoc_from (snd p) \<in> set (map fst (classes pd))"
    and "(associationId, x) \<in> set (associations pd)"
    and "assoc_type x = ONE_TO_MANY" and "\<not> truthy (injectedFieldInTo x)"
    and "getClass pd (assoc_from x) = Some fromClass"
    and "getClass pd (assoc_to x) = Some toClass"
    and "\<not> isUser pd (assoc_from x)"
    and "createEntities env2 (a\<lparr>arg_parsedData := Some (parsedDataOf g)\<rparr>) = Inr (ents2, g2)"
  shows "getAssociation (parsedDataOf g) associationId = Some (x\<lparr>assoc_type := MANY_TO_ONE\<rparr>)
     \<and> (\<exists>e r n. map_of ents (assoc_from x) = Some e \<and> r \<in> set (relationships e)
           \<and> r = fromRelationship env x (class_name fromClass) (class_name toClass) n
           \<and> relationshipType r = ONE_TO_MANY)
     \<and> (\<exists>e r n. map_of ents2 (assoc_from x) = Some e \<and> r \<in> set (relationships e)
           \<and> r = fromRelationship env2 (x\<lparr>assoc_type := MANY_TO_ONE\<rparr>)
                   (class_name fromClass) (class_name toClass) n
           \<and> relationshipType r = MANY_TO_ONE)
     \<and> (\<forall>k e. map_of ents k = Some e
           \<longrightarrow> length (relationships e) = leaving pd k + arriving pd k)
     \<and> (\<forall>k e. map_of ents2 k = Some e
           \<longrightarrow> length (relationships e)
               = leaving pd k
                 + length (filter (\<lambda>p. assoc_to (snd p) = k \<and> truthy (injectedFieldInTo (snd p)))
                             (associations pd)))"
proof -
  let ?cs = "map fst (classes pd)"
  let ?pd2 = "parsedDataOf g"
  let ?x2 = "x\<lparr>assoc_type := MANY_TO_ONE\<rparr>"
  have s: "synthesizes x" using assms(7,8) by (simp add: synthesizes_def)
  have fr: "assoc_from x \<in> set ?cs" using assms(9) by (rule getClass_keys)
  have 1: "getAssociation ?pd2 associationId = Some ?x2"
    using createEntities_normalized[OF assms(1-4,6) fr] s by (simp add: normalize_def)
  have c2: "classes ?pd2 = classes pd" by (rule createEntities_classes[OF assms(1,2)])
  have a2: "associations ?pd2 = resolved (\<lambda>i x. assoc_from x \<in> set ?cs) (associations pd)"
    by (rule createEntities_resolution[OF assms(1-4)])
  have d2: "distinct (map fst (classes ?pd2))" "distinct (map fst (associations ?pd2))"
    using assms(3,4) by (simp_all add: c2 a2)
  have h2: "\<forall>p \<in> set (associations ?pd2). assoc_from (snd p) \<in> set (map fst (classes ?pd2))"
    using assms(5) by (auto simp: c2 a2 resolved_def)
  have m2: "(associationId, ?x2) \<in> set (associations ?pd2)"
    using 1 by (auto simp: getAssociation_def dest: map_of_SomeD)
  have u2: "\<not> isUser ?pd2 (assoc_from ?x2)"
    using assms(11) isUser_classes[OF c2] by simp
  have p2: "arg_parsedData (a\<lparr>arg_parsedData := Some ?pd2\<rparr>) = Some ?pd2" by simp
  have "\<exists>e r. map_of ents (assoc_from x) = Some e \<and> r \<in> set (relationships e)
          \<and> (\<exists>n. r = fromRelationship env x (class_name fromClass) (class_name toClass) n)"
  proof (rule createEntities_record[OF assms(1-4,6) fr assms(11)])
    fix s s'
    assume x: "getAssociation (parsedDataOf s) associationId = Some x"
      and cl: "classes (parsedDataOf s) = classes pd"
      and st: "fromStep env (assoc_from x) associationId s = Inr s'"
    have "getClass (parsedDataOf s) (assoc_from x) = Some fromClass"
      "getClass (parsedDataOf s) (assoc_to x) = Some toClass"
      using cl assms(9,10) by (simp_all add: getClass_def)
    from fromStep_from_record[OF st x this]
    show "hasRecord (\<lambda>r. \<exists>n. r = fromRelationship env x (class_name fromClass) (class_name toClass) n)
                 (assoc_from x) s'" .
  qed
  then obtain e1 r1 n1 where "map_of ents (assoc_from x) = Some e1" "r1 \<in> set (relationships e1)"
    "r1 = fromRelationship env x (class_name fromClass) (class_name toClass) n1"
    by blast
  moreover from this(3) have "relationshipType r1 = ONE_TO_MANY" using assms(7) by simp
  ultimately have 2: "\<exists>e r n. map_of ents (assoc_from x) = Some e \<and> r \<in> set (relationships e)
           \<and> r = fromRelationship env x (class_name fromClass) (class_name toClass) n
           \<and> relationshipType r = ONE_TO_MANY"
    by blast
  have "\<exists>e r. map_of ents2 (assoc_from ?x2) = Some e \<and> r \<in> set (relationships e)
          \<and> (\<exists>n. r = fromRelationship env2 ?x2 (class_name fromClass) (class_name toClass) n)"
  proof (rule createEntities_record[OF assms(12) p2 d2 m2 _ u2])
    show "assoc_from ?x2 \<in> set (map fst (classes ?pd2))" using fr c2 by simp
  next
    fix s s'
    assume x: "getAssociation (parsedDataOf s) associationId = Some ?x2"
      and cl: "classes (parsedDataOf s) = classes ?pd2"
      and st: "fromStep env2 (assoc_from ?x2) associationId s = Inr s'"
    have "getClass (parsedDataOf s) (assoc_from ?x2) = Some fromClass"
      "getClass (parsedDataOf s) (assoc_to ?x2) = Some toClass"
      using cl c2 assms(9,10) by (simp_all add: getClass_def)
    from fromStep_from_record[OF st x this]
    show "hasRecord (\<lambda>r. \<exists>n. r = fromRelationship env2 ?x2 (class_name fromClass) (class_name toClass) n)
                 (assoc_from ?x2) s'" .
  qed
  then obtain e2 r2 n2 where "map_of ents2 (assoc_from x) = Some e2" "r2 \<in> set (relationships e2)"
    "r2 = fromRelationship env2 ?x2 (class_name fromClass) (class_name toClass) n2"
    by auto
  moreover from this(3) have "relationshipType r2 = MANY_TO_ONE" by simp
  ultimately have 3: "\<exists>e r n. map_of ents2 (assoc_from x) = Some e \<and> r \<in> set (relationships e)
           \<and> r = fromRelationship env2 ?x2 (class_name fromClass) (class_name toClass) n
           \<and> relationshipType r = MANY_TO_ONE"
    by blast
  have 4: "length (relationships e) = leaving pd k + arriving pd k"
    if "map_of ents k = Some e" for k e
    using relationship_count[OF assms(1-5) that] .
  have 5: "length (relationships e)
           = leaving pd k
             + length (filter (\<lambda>p. assoc_to (snd p) = k \<and> truthy (injectedFieldInTo (snd p)))
                         (associations pd))"
    if "map_of ents2 k = Some e" for k e
  proof -
    have "length (relationships e) = leaving ?pd2 k + arriving ?pd2 k"
      using relationship_count[OF assms(12) p2 d2 h2 that] .
    moreover have "leaving ?pd2 k = leaving pd k"
      by (simp add: leaving_def a2 leaving_resolved)
    moreover have "arriving ?pd2 k
        = length (filter (\<lambda>p. assoc_to (snd p) = k \<and> truthy (injectedFieldInTo (snd p)))
                    (associations pd))"
      unfolding arriving_def a2 using assms(5) by (intro arriving_resolved_all) simp
    ultimately show ?thesis by simp
  qed
  from 1 2 3 4 5 show ?thesis by blast
qed

theorem second_call_sees_many_to_one_witness:
  "relationshipsOf (createEntities exampleEnv (exampleArgs authorBook ''sql'')) ''c1''
     = Some [\<lparr>relationshipId = 1, relationshipType = ONE_TO_MANY,
               relationshipName = Some ''books'', otherEntityName = Some ''book'',
               otherEntityField = None, ownerSide = None,
               otherEntityRelationshipName = Some ''author''\<rparr>]
   \<and> relationshipsOf
        (createEntities exampleEnv
          ((exampleArgs authorBook ''sql'')
             \<lparr>arg_parsedData :=
                parsedDataAfter (createEntities exampleEnv (exampleArgs authorBook ''sql''))\<rparr>))
        ''c1''
     = Some [\<lparr>relationshipId = 1, relationshipType = MANY_TO_ONE,
               relationshipName = Some ''books'', otherEntityName = Some ''book'',
               otherEntityField = Some ''id'', ownerSide = None,
               otherEntityRelationshipName = None\<rparr>]
   \<and> relationshipsOf
        (createEntities exampleEnv
          ((exampleArgs authorBook ''sql'')
             \<lparr>arg_parsedData :=
                parsedDataAfter (createEntities exampleEnv (exampleArgs authorBook ''sql''))\<rparr>))
        ''c2''
     = Some []"
proof -
  let ?a = "exampleArgs authorBook ''sql''"
  let ?r1 = "createEntities exampleEnv ?a"
  let ?r2 = "createEntities exampleEnv (?a\<lparr>arg_parsedData := Some (parsedDataOf (snd (projr ?r1)))\<rparr>)"
  let ?x = "\<lparr>assoc_from = ''c1'', assoc_to = ''c2'', assoc_type = ONE_TO_MANY,
             injectedFieldInFrom = Some ''books'', injectedFieldInTo = None\<rparr>"
  have r1: "\<not> isl ?r1" and r2: "\<not> isl ?r2" by code_simp+
  have p: "parsedDataAfter ?r1 = Some (parsedDataOf (snd (projr ?r1)))"
    using r1 by (cases ?r1) (auto simp: parsedDataAfter_def)
  have h: "distinct (map fst (classes authorBook))" "distinct (map fst (associations authorBook))"
    "\<forall>p \<in> set (associations authorBook).
        assoc_from (snd p) \<in> set (map fst (classes authorBook))"
    "(''a1'', ?x) \<in> set (associations authorBook)"
    "assoc_type ?x = ONE_TO_MANY" "\<not> truthy (injectedFieldInTo ?x)"
    "getClass authorBook (assoc_from ?x) = Some (exampleClass ''Author'')"
    "getClass authorBook (assoc_to ?x) = Some (exampleClass ''Book'')"
    by (simp_all add: authorBook_def exampleModel_def getClass_def)
  have u: "\<not> isUser authorBook (assoc_from ?x)" by code_simp
  have "arg_parsedData ?a = Some authorBook" by simp
  note t = second_call_sees_many_to_one[OF returned[OF r1] this h u returned[OF r2]]
  have c1: "relationshipsOf ?r1 ''c1''
     = Some [\<lparr>relationshipId = 1, relationshipType = ONE_TO_MANY,
               relationshipName = Some ''books'', otherEntityName = Some ''book'',
               otherEntityField = None, ownerSide = None,
               otherEntityRelationshipName = Some ''author''\<rparr>]" by code_simp
  have c2: "relationshipsOf ?r2 ''c1''
     = Some [\<lparr>relationshipId = 1, relationshipType = MANY_TO_ONE,
               relationshipName = Some ''books'', otherEntityName = Some ''book'',
               otherEntityField = Some ''id'', ownerSide = None,
               otherEntityRelationshipName = None\<rparr>]" by code_simp
  have "relationshipsOf ?r2 ''c2'' \<noteq> None" by code_simp
  then obtain rs where rs: "relationshipsOf ?r2 ''c2'' = Some rs" by auto
  from relationshipsOf_Some[OF rs] obtain e where
    e: "map_of (fst (projr ?r2)) ''c2'' = Some e" "relationships e = rs" by blast
  have "leaving authorBook ''c2''
        + length (filter (\<lambda>p. assoc_to (snd p) = ''c2'' \<and> truthy (injectedFieldInTo (snd p)))
                    (associations authorBook)) = 0"
    by (simp add: leaving_def authorBook_def exampleModel_def)
  moreover from t have "length (relationships e)
        = leaving authorBook ''c2''
          + length (filter (\<lambda>p. assoc_to (snd p) = ''c2'' \<and> truthy (injectedFieldInTo (snd p)))
                      (associations authorBook))"
    using e(1) by blast
  ultimately have "rs = []" using e(2) by simp
  with c1 c2 rs p show ?thesis by simp
qed

section \<open>The from-side record of a ONE_TO_ONE\<close>

lemma replaceFirst_absent: "c \<notin> set s \<Longrightarrow> replaceFirst c r s = s"
  by (induction s) auto

lemma split_absent: "c \<notin> set s \<Longrightarrow> split c s = [s]"
  by (induction s) auto

lemma extractField_bare:
  assumes "s \<noteq> []" and "CHR ''('' \<notin> set s" and "CHR '')'' \<notin> set s" and "CHR ''/'' \<notin> set s"
  shows "extractField (Some s) = \<lparr>split_otherEntityField = ''id'', split_relationshipName = s\<rparr>"
  using assms by (simp add: extractField_def replaceFirst_absent split_absent)

lemma fromRelationship_oneToOne:
  "assoc_type x = ONE_TO_ONE
   \<Longrightarrow> otherEntityRelationshipName (fromRelationship env x fn tn n)
       = Some (lowerFirst env (orElse (injectedFieldInTo x) fn))"
  by (simp add: fromRelationship_def newRelationship_def Let_def)

text \<open>
  Claim C4, as amended. For a \<^verbatim>\<open>ONE_TO_ONE\<close> association, the entity of the source class
  holds the from-side record, whose \<^verbatim>\<open>otherEntityRelationshipName\<close> is \<^verbatim>\<open>lowerFirst\<close> of the
  name of the source class when \<^verbatim>\<open>injectedFieldInTo\<close> is absent, and \<^verbatim>\<open>lowerFirst\<close> of the
  relationship name decoded from \<^verbatim>\<open>injectedFieldInTo\<close> when that descriptor is a plain name
  (without parenthesis or slash).
\<close>

theorem oneToOne_otherEntityRelationshipName:
  assumes "createEntities env a = Inr (ents, g)" and "arg_parsedData a = Some pd"
    and "distinct (map fst (classes pd))" and "distinct (map fst (associations pd))"
    and "(associationId, x) \<in> set (associations pd)" and "assoc_type x = ONE_TO_ONE"
    and "getClass pd (assoc_from x) = Some fromClass"
    and "getClass pd (assoc_to x) = Some toClass"
    and "\<not> isUser pd (assoc_from x)"
  shows "\<exists>e r n. map_of ents (assoc_from x) = Some e \<and> r \<in> set (relationships e)
           \<and> r = fromRelationship env x (class_name fromClass) (class_name toClass) n
           \<and> relationshipType r = ONE_TO_ONE
           \<and> (\<not> truthy (injectedFieldInTo x)
                \<longrightarrow> otherEntityRelationshipName r = Some (lowerFirst env (class_name fromClass)))
           \<and> (\<forall>s. injectedFieldInTo x = Some s \<and> s \<noteq> [] \<and> CHR ''('' \<notin> set s
                     \<and> CHR '')'' \<notin> set s \<and> CHR ''/'' \<notin> set s
                \<longrightarrow> split_relationshipName (extractField (injectedFieldInTo x)) = s
                    \<and> otherEntityRelationshipName r
                        = Some (lowerFirst env
                                  (split_relationshipName (extractField (injectedFieldInTo x)))))"
proof -
  have fr: "assoc_from x \<in> set (map fst (classes pd))" using assms(7) by (rule getClass_keys)
  have "\<exists>e r. map_of ents (assoc_from x) = Some e \<and> r \<in> set (relationships e)
          \<and> (\<exists>n. r = fromRelationship env x (class_name fromClass) (class_name toClass) n)"
  proof (rule createEntities_record[OF assms(1-5) fr assms(9)])
    fix s s'
    assume x: "getAssociation (parsedDataOf s) associationId = Some x"
      and cl: "classes (parsedDataOf s) = classes pd"
      and st: "fromStep env (assoc_from x) associationId s = Inr s'"
    have "getClass (parsedDataOf s) (assoc_from x) = Some fromClass"
      "getClass (parsedDataOf s) (assoc_to x) = Some toClass"
      using cl assms(7,8) by (simp_all add: getClass_def)
    from fromStep_from_record[OF st x this]
    show "hasRecord (\<lambda>r. \<exists>n. r = fromRelationship env x (class_name fromClass) (class_name toClass) n)
                 (assoc_from x) s'" .
  qed
  then obtain e r n where e: "map_of ents (assoc_from x) = Some e" "r \<in> set (relationships e)"
    and r: "r = fromRelationship env x (class_name fromClass) (class_name toClass) n"
    by blast
  have t: "relationshipType r = ONE_TO_ONE" using r assms(6) by simp
  have o: "otherEntityRelationshipName r
           = Some (lowerFirst env (orElse (injectedFieldInTo x) (class_name fromClass)))"
    unfolding r using assms(6) by (rule fromRelationship_oneToOne)
  have 1: "otherEntityRelationshipName r = Some (lowerFirst env (class_name fromClass))"
    if "\<not> truthy (injectedFieldInTo x)"
    using that o by (cases "injectedFieldInTo x") (simp_all add: orElse_def)
  have 2: "split_relationshipName (extractField (injectedFieldInTo x)) = s
           \<and> otherEntityRelationshipName r
               = Some (lowerFirst env (split_relationshipName (extractField (injectedFieldInTo x))))"
    if "injectedFieldInTo x = Some s \<and> s \<noteq> [] \<and> CHR ''('' \<notin> set s
          \<and> CHR '')'' \<notin> set s \<and> CHR ''/'' \<notin> set s" for s
    using that o by (simp add: extractField_bare orElse_def)
  from e r t 1 2 show ?thesis by blast
qed

theorem oneToOne_otherEntityRelationshipName_witness:
  "relationshipsOf (createEntities exampleEnv (exampleArgs oneToOne ''sql'')) ''c1''
     = Some [\<lparr>relationshipId = 1, relationshipType = ONE_TO_ONE,
               relationshipName = Some ''book'', otherEntityName = Some ''book'',
               otherEntityField = Some ''id'', ownerSide = Some True,
               otherEntityRelationshipName = Some ''author''\<rparr>]
   \<and> lowerFirst exampleEnv (class_name (exampleClass ''Author'')) = ''author''"
proof -
  let ?r = "createEntities exampleEnv (exampleArgs oneToOne ''sql'')"
  let ?x = "\<lparr>assoc_from = ''c1'', assoc_to = ''c2'', assoc_type = ONE_TO_ONE,
             injectedFieldInFrom = Some ''book'', injectedFieldInTo = None\<rparr>"
  have c1: "relationshipsOf ?r ''c1''
     = Some [\<lparr>relationshipId = 1, relationshipType = ONE_TO_ONE,
               relationshipName = Some ''book'', otherEntityName = Some ''book'',
               otherEntityField = Some ''id'', ownerSide = Some True,
               otherEntityRelationshipName = Some ''author''\<rparr>]" by code_simp
  from relationshipsOf_Some[OF c1] obtain e1 where
    e1: "map_of (fst (projr ?r)) ''c1'' = Some e1"
      "relationships e1 = [\<lparr>relationshipId = 1, relationshipType = ONE_TO_ONE,
               relationshipName = Some ''book'', otherEntityName = Some ''book'',
               otherEntityField = Some ''id'', ownerSide = Some True,
               otherEntityRelationshipName = Some ''author''\<rparr>]"
    and r: "\<not> isl ?r" by blast
  have h: "distinct (map fst (classes oneToOne))" "distinct (map fst (associations oneToOne))"
    "(''a1'', ?x) \<in> set (associations oneToOne)" "assoc_type ?x = ONE_TO_ONE"
    "getClass oneToOne (assoc_from ?x) = Some (exampleClass ''Author'')"
    "getClass oneToOne (assoc_to ?x) = Some (exampleClass ''Book'')"
    by (simp_all add: oneToOne_def exampleModel_def getClass_def)
  have u: "\<not> isUser oneToOne (assoc_from ?x)" by code_simp
  have "arg_parsedData (exampleArgs oneToOne ''sql'') = Some oneToOne" by simp
  from oneToOne_otherEntityRelationshipName[OF returned[OF r] this h u]
  obtain e r' where "map_of (fst (projr ?r)) ''c1'' = Some e" "r' \<in> set (relationships e)"
    "otherEntityRelationshipName r' = Some (lowerFirst exampleEnv (class_name (exampleClass ''Author'')))"
    by auto
  with e1 have "lowerFirst exampleEnv (class_name (exampleClass ''Author'')) = ''author''"
    by auto
  with c1 show ?thesis by simp
qed

text \<open>
  The claim as it stands fails when \<^verbatim>\<open>injectedFieldInTo\<close> is absent: the name is the one of
  the source class \<^verbatim>\<open>Author\<close>, not of the target class \<^verbatim>\<open>Book\<close>.
\<close>

theorem oneToOne_source_name_counterexample:
  "map_option (map otherEntityRelationshipName)
     (relationshipsOf (createEntities exampleEnv (exampleArgs oneToOne ''sql'')) ''c1'')
     = Some [Some ''author'']
   \<and> map_option class_name (getClass oneToOne ''c2'') = Some ''Book''
   \<and> map (injectedFieldInTo \<circ> snd) (associations oneToOne) = [None]"
  by code_simp

section \<open>The from-side record of a MANY_TO_ONE without injectedFieldInFrom\<close>

text \<open>
  Claim C3. For a \<^verbatim>\<open>MANY_TO_ONE\<close> association without \<^verbatim>\<open>injectedFieldInFrom\<close> the branch of
  line 334 is skipped, and line 346 pushes the record all the same: the entity of the
  source class gets a record that holds an identifier and the type, and nothing else.
\<close>

theorem manyToOne_without_injectedFieldInFrom:
  "map (injectedFieldInFrom \<circ> snd) (associations manyToOneBack) = [None]
   \<and> relationshipsOf (createEntities exampleEnv (exampleArgs manyToOneBack ''sql'')) ''c1''
     = Some [\<lparr>relationshipId = 1, relationshipType = MANY_TO_ONE, relationshipName = None,
               otherEntityName = None, otherEntityField = None, ownerSide = None,
               otherEntityRelationshipName = None\<rparr>]"
  by code_simp

end
